theory Spec2Isabelle
  imports Complex_Main
begin

section \<open>Render options, artifacts and the render driver\<close>

text \<open>
  The renderer (class \<open>PuppeteerRenderer\<close>) and the job queue (class \<open>JobQueue\<close>) are
  embedded as pure functions over explicit state. JavaScript numbers are modelled as exact
  rationals. The source computes with IEEE doubles; the two agree where every product and
  quotient involved is exactly representable (whole numbers up to \<open>2^53\<close> and their exact
  quotients), and a statement that depends on the exact value of a product or quotient is
  made for such numbers only.

  Of the render options only the keys read by the orchestration code are kept; the other
  keys (dimensions, lighting, quality, ...) are handed to the browser page unread.
\<close>

record options =
  format :: string
  views :: "string list"
  turntable :: bool
  duration :: rat
  fps :: rat

text \<open>
  One entry of the \<open>results\<close> array: the object pushed by \<open>renderImages\<close>
  (\<open>view, fileName, size\<close>) or the object returned by \<open>renderVideo\<close>/\<open>renderGIF\<close>
  (\<open>type, fileName, size, duration, fps, frames\<close>). The \<open>path\<close> key is the file name
  under the fixed renders directory and is not repeated.
\<close>

datatype artifact =
  ImageArtifact string string nat
| ClipArtifact string string nat rat rat rat

text \<open>The object returned by \<open>renderGLB\<close>: keys \<open>success, results, duration, options\<close>.\<close>

record render_result =
  r_success :: bool
  r_results :: "artifact list"
  r_duration :: nat
  r_options :: options

text \<open>
  Fields of the renderer object: \<open>browser\<close> (here: whether it is non-null) and
  \<open>isInitialized\<close>.
\<close>

record renderer =
  browser :: bool
  isInitialized :: bool

text \<open>
  What the outside world does during one call of \<open>renderGLB\<close>. Every awaited call on
  the browser page, the file system or the encoder may reject; the rejection carries a
  message.
  \<^item> \<open>newPage_err\<close>: \<open>browser.newPage()\<close> rejects;
  \<^item> \<open>setup_err\<close>: one of the awaited calls between \<open>setViewport\<close> and
    \<open>applyRenderSettings\<close> rejects;
  \<^item> \<open>shoot_view k v\<close>: the body of the \<open>k\<close>-th iteration of the still loop for view
    \<open>v\<close> (camera placement, settle, screenshot, post-processing, write) either throws or
    yields the byte size of the written image;
  \<^item> \<open>ensureDir_err\<close>: \<open>fs.ensureDir(frameDir)\<close> rejects;
  \<^item> \<open>shoot_frame i\<close>: the body of the frame loop throws at frame \<open>i\<close>;
  \<^item> \<open>encode_err\<close>: \<open>convertFramesToVideo\<close>/\<open>convertFramesToGIF\<close> rejects;
  \<^item> \<open>remove_err n\<close>: the \<open>n\<close>-th call of \<open>fs.remove\<close> of this render rejects;
  \<^item> \<open>stat_size\<close>: \<open>fs.stat(outputPath)\<close> rejects or yields the file size;
  \<^item> \<open>close_err\<close>: \<open>page.close()\<close> in the \<open>finally\<close> block rejects;
  \<^item> \<open>elapsed_ms\<close>: \<open>Date.now() - startTime\<close>; \<open>clock_ms\<close>: \<open>Date.now()\<close> when the
    frame directory is named.
\<close>

datatype capture = Captured nat | CaptureError string

record driver =
  newPage_err :: "string option"
  setup_err :: "string option"
  shoot_view :: "nat \<Rightarrow> string \<Rightarrow> capture"
  ensureDir_err :: "string option"
  shoot_frame :: "nat \<Rightarrow> string option"
  encode_err :: "string option"
  remove_err :: "nat \<Rightarrow> string option"
  stat_size :: "string + nat"
  close_err :: "string option"
  elapsed_ms :: nat
  clock_ms :: nat

text \<open>The file system, as far as the renderer changes it: the set of existing directories.\<close>

type_synonym disk = "string set"

subsection \<open>String helpers\<close>

text \<open>
  \<open>path.parse(p).name\<close> on POSIX: the last component of the path (trailing slashes
  dropped) without its extension; a leading dot does not start an extension, and \<open>..\<close>
  has none.
\<close>

definition path_base :: "string \<Rightarrow> string" where
  "path_base p =
     rev (takeWhile (\<lambda>c. c \<noteq> CHR ''/'') (dropWhile (\<lambda>c. c = CHR ''/'') (rev p)))"

definition path_name :: "string \<Rightarrow> string" where
  "path_name p =
     (let b = path_base p;
          stem = rev (drop 1 (dropWhile (\<lambda>c. c \<noteq> CHR ''.'') (rev b)))
      in if CHR ''.'' \<in> set b \<and> stem \<noteq> [] \<and> b \<noteq> ''..'' then stem else b)"

definition digit_char :: "nat \<Rightarrow> char" where
  "digit_char n = char_of (48 + n)"

fun show_nat :: "nat \<Rightarrow> string" where
  "show_nat n = (if n < 10 then [digit_char n] else show_nat (n div 10) @ [digit_char (n mod 10)])"

declare show_nat.simps [simp del]

subsection \<open>expandViews\<close>

definition expandViews :: "string list \<Rightarrow> string list" where
  "expandViews vs =
     (if ''all'' \<in> set vs
      then [''front'', ''side'', ''top'', ''perspective'', ''back'', ''bottom'']
      else vs)"

subsection \<open>renderImages\<close>

text \<open>
  The \<open>for (const view of views)\<close> loop with its \<open>try/catch\<close>: a successful iteration
  pushes one entry onto \<open>results\<close>; the \<open>catch\<close> block only writes to the console and the
  loop goes on with the next view.
\<close>

fun renderImages_loop ::
  "driver \<Rightarrow> string \<Rightarrow> options \<Rightarrow> nat \<Rightarrow> string list \<Rightarrow> artifact list \<Rightarrow> artifact list" where
  "renderImages_loop d fileName opts k [] results = results"
| "renderImages_loop d fileName opts k (v # vs) results =
     (case shoot_view d k v of
        Captured sz \<Rightarrow>
          renderImages_loop d fileName opts (Suc k) vs
            (results @ [ImageArtifact v (path_name fileName @ ''_'' @ v @ ''.'' @ format opts) sz])
      | CaptureError e \<Rightarrow> renderImages_loop d fileName opts (Suc k) vs results)"

definition renderImages :: "driver \<Rightarrow> string \<Rightarrow> options \<Rightarrow> artifact list" where
  "renderImages d fileName opts =
     renderImages_loop d fileName opts 0 (expandViews (views opts)) []"

subsection \<open>renderVideo and renderGIF\<close>

text \<open>
  The frame loop \<open>for (let frame = 0; frame < totalFrames; frame++)\<close>. It returns the
  error that aborted it, if any, and the angles handed to \<open>rotateCameraToAngle\<close> for the
  frames that were captured and written.
\<close>

function captureFrames ::
  "driver \<Rightarrow> rat \<Rightarrow> rat \<Rightarrow> nat \<Rightarrow> rat list \<Rightarrow> string option \<times> rat list" where
  "captureFrames d totalFrames angleStep frame angles =
     (if of_nat frame < totalFrames
      then (case shoot_frame d frame of
              Some e \<Rightarrow> (Some e, angles)
            | None \<Rightarrow>
                captureFrames d totalFrames angleStep (Suc frame)
                  (angles @ [of_nat frame * angleStep]))
      else (None, angles))"
  by pat_completeness auto
termination
proof (relation "measure (\<lambda>(d, totalFrames, angleStep, frame, angles). nat \<lceil>totalFrames\<rceil> - frame)")
  show "wf (measure (\<lambda>(d, totalFrames, angleStep, frame, angles). nat \<lceil>totalFrames\<rceil> - frame))"
    by simp
next
  fix d :: driver and totalFrames angleStep :: rat and frame :: nat and angles :: "rat list"
  assume lt: "of_nat frame < totalFrames"
  have "int frame < \<lceil>totalFrames\<rceil>"
    using lt by (simp add: less_ceiling_iff)
  then have "frame < nat \<lceil>totalFrames\<rceil>" by linarith
  then show "((d, totalFrames, angleStep, Suc frame, angles @ [of_nat frame * angleStep]),
              (d, totalFrames, angleStep, frame, angles))
             \<in> measure (\<lambda>(d, totalFrames, angleStep, frame, angles). nat \<lceil>totalFrames\<rceil> - frame)"
    by simp
qed

declare captureFrames.simps [simp del]

text \<open>
  \<open>fs.remove(dir)\<close>: the \<open>n\<close>-th call either rejects, leaving the directory, or removes
  it. \<open>remove_quiet\<close> is \<open>fs.remove(dir).catch(() => {})\<close> of the \<open>catch\<close> blocks.
\<close>

definition fs_remove :: "driver \<Rightarrow> nat \<Rightarrow> string \<Rightarrow> disk \<Rightarrow> string option \<times> disk" where
  "fs_remove d n dir fs =
     (case remove_err d n of Some e \<Rightarrow> (Some e, fs) | None \<Rightarrow> (None, fs - {dir}))"

definition remove_quiet :: "driver \<Rightarrow> nat \<Rightarrow> string \<Rightarrow> disk \<Rightarrow> disk" where
  "remove_quiet d n dir fs = snd (fs_remove d n dir fs)"

definition videoFrameDir :: "driver \<Rightarrow> string" where
  "videoFrameDir d = ''storage/temp/frames_'' @ show_nat (clock_ms d)"

definition gifFrameDir :: "driver \<Rightarrow> string" where
  "gifFrameDir d = ''storage/temp/gif_frames_'' @ show_nat (clock_ms d)"

text \<open>
  The part shared by the two \<open>try\<close> blocks after the frame loop: encode, remove the frame
  directory, stat the output; any rejection goes to the \<open>catch\<close> block, which removes the
  directory quietly and rethrows. \<open>n\<close> counts the calls of \<open>fs.remove\<close> made so far.
\<close>

definition encodeAndClean ::
  "driver \<Rightarrow> string \<Rightarrow> disk \<Rightarrow> (nat \<Rightarrow> artifact) \<Rightarrow> (string + artifact) \<times> disk" where
  "encodeAndClean d frameDir fs mk =
     (case encode_err d of
        Some e \<Rightarrow> (Inl e, remove_quiet d 0 frameDir fs)
      | None \<Rightarrow>
          (case fs_remove d 0 frameDir fs of
             (Some e, fs1) \<Rightarrow> (Inl e, remove_quiet d 1 frameDir fs1)
           | (None, fs1) \<Rightarrow>
               (case stat_size d of
                  Inl e \<Rightarrow> (Inl e, remove_quiet d 1 frameDir fs1)
                | Inr sz \<Rightarrow> (Inr (mk sz), fs1))))"

text \<open>
  Both functions return the outcome (\<open>Inl\<close>: the message of the error thrown), the file
  system afterwards and the rotation angles of the captured frames.
\<close>

definition renderVideo ::
  "driver \<Rightarrow> disk \<Rightarrow> string \<Rightarrow> options \<Rightarrow> (string + artifact) \<times> disk \<times> rat list" where
  "renderVideo d fs fileName opts =
     (let frameDir = videoFrameDir d in
      case ensureDir_err d of
        Some e \<Rightarrow> (Inl e, fs, [])
      | None \<Rightarrow>
          (let fs1 = insert frameDir fs;
               totalFrames = duration opts * fps opts;
               angleStep = 360 / totalFrames
           in case captureFrames d totalFrames angleStep 0 [] of
                (Some e, angles) \<Rightarrow> (Inl e, remove_quiet d 0 frameDir fs1, angles)
              | (None, angles) \<Rightarrow>
                  (let (out, fs2) =
                         encodeAndClean d frameDir fs1
                           (\<lambda>sz. ClipArtifact ''video'' (path_name fileName @ ''_turntable.mp4'') sz
                                    (duration opts) (fps opts) totalFrames)
                   in (out, fs2, angles))))"

definition renderGIF ::
  "driver \<Rightarrow> disk \<Rightarrow> string \<Rightarrow> options \<Rightarrow> (string + artifact) \<times> disk \<times> rat list" where
  "renderGIF d fs fileName opts =
     (let gifOptions = opts\<lparr>duration := min (duration opts) 3, fps := min (fps opts) 15\<rparr>;
          frameDir = gifFrameDir d
      in case ensureDir_err d of
           Some e \<Rightarrow> (Inl e, fs, [])
         | None \<Rightarrow>
             (let fs1 = insert frameDir fs;
                  totalFrames = duration gifOptions * fps gifOptions;
                  angleStep = 360 / totalFrames
              in case captureFrames d totalFrames angleStep 0 [] of
                   (Some e, angles) \<Rightarrow> (Inl e, remove_quiet d 0 frameDir fs1, angles)
                 | (None, angles) \<Rightarrow>
                     (let (out, fs2) =
                            encodeAndClean d frameDir fs1
                              (\<lambda>sz. ClipArtifact ''gif'' (path_name fileName @ ''_animated.gif'') sz
                                       (duration gifOptions) (fps gifOptions) totalFrames)
                      in (out, fs2, angles))))"

subsection \<open>renderGLB\<close>

text \<open>
  The \<open>try\<close> block of \<open>renderGLB\<close> followed by its \<open>finally\<close> block: when
  \<open>page.close()\<close> rejects, that rejection replaces whatever the \<open>try\<close> block produced.
  When \<open>newPage\<close> itself rejects, \<open>page\<close> is still null and nothing is closed.
\<close>

definition renderGLB ::
  "renderer \<Rightarrow> driver \<Rightarrow> disk \<Rightarrow> string \<Rightarrow> options \<Rightarrow> (string + render_result) \<times> disk \<times> rat list" where
  "renderGLB r d fs fileName opts =
     (if \<not> isInitialized r \<or> \<not> browser r then (Inl ''Puppeteer not initialized'', fs, [])
      else case newPage_err d of
        Some e \<Rightarrow> (Inl e, fs, [])
      | None \<Rightarrow>
          (let (out, fs1, angles) =
                 (case setup_err d of
                    Some e \<Rightarrow> (Inl e, fs, [])
                  | None \<Rightarrow>
                      if format opts = ''mp4'' \<or> turntable opts then
                        (case renderVideo d fs fileName opts of
                           (Inl e, fs', angles) \<Rightarrow> (Inl e, fs', angles)
                         | (Inr videoResult, fs', angles) \<Rightarrow> (Inr [videoResult], fs', angles))
                      else if format opts = ''gif'' \<or> ''animated'' \<in> set (views opts) then
                        (case renderGIF d fs fileName opts of
                           (Inl e, fs', angles) \<Rightarrow> (Inl e, fs', angles)
                         | (Inr gifResult, fs', angles) \<Rightarrow> (Inr [gifResult], fs', angles))
                      else (Inr (renderImages d fileName opts), fs, []))
           in case close_err d of
                Some e \<Rightarrow> (Inl e, fs1, angles)
              | None \<Rightarrow>
                  (case out of
                     Inl e \<Rightarrow> (Inl e, fs1, angles)
                   | Inr results \<Rightarrow>
                       (Inr \<lparr>r_success = True, r_results = results,
                             r_duration = elapsed_ms d, r_options = opts\<rparr>, fs1, angles))))"

section \<open>The job queue\<close>

datatype status = Pending | Processing | Completed | Failed | Cancelled

text \<open>The value returned by \<open>processBatchJob\<close> and its per-file entries.\<close>

datatype batch_entry = BatchOk string render_result | BatchFailed string string

record batch_result =
  totalFiles :: nat
  entries :: "batch_entry list"
  successful :: nat
  failed :: nat

datatype job_result = RenderResult render_result | BatchResult batch_result

text \<open>The argument of \<open>addJob\<close> and the job object built from it.\<close>

record jobData =
  jd_type :: string
  jd_fileName :: string
  jd_files :: "string list"
  jd_options :: options

record job =
  job_id :: string
  jtype :: string
  fileName :: string
  files :: "string list"
  job_options :: options
  status :: status
  createdAt :: nat
  startedAt :: "nat option"
  completedAt :: "nat option"
  progress :: int
  result :: "job_result option"
  error :: "string option"

text \<open>
  The fields of the \<open>JobQueue\<close> object, followed by the run-time state around it:
  \<^item> \<open>inflight\<close>: the job objects held by suspended activations of \<open>processJob\<close>;
  \<^item> \<open>loops\<close>: the number of activations of \<open>processQueue\<close> suspended in \<open>sleep\<close>;
  \<^item> \<open>fs\<close>: the directories on disk;
  \<^item> \<open>issued\<close>: the identifiers \<open>uuidv4()\<close> has returned so far.

  The queue holds job objects. A job object is written only by \<open>addJob\<close>, by
  \<open>cancelJob\<close> (which takes it out of the queue) and by the activation of \<open>processJob\<close>
  that took it out of the queue, and every write is followed by \<open>this.jobs.set\<close>; so the
  objects are modelled as values, the map \<open>jobs\<close> holding the current one.
\<close>

record system =
  jobs :: "string \<rightharpoonup> job"
  queue :: "job list"
  isProcessing :: bool
  concurrency :: int
  activeJobs :: int
  the_renderer :: "renderer option"
  inflight :: "job list"
  loops :: nat
  fs :: disk
  issued :: "string set"

definition newJobQueue :: "disk \<Rightarrow> system" where
  "newJobQueue d0 =
     \<lparr>jobs = Map.empty, queue = [], isProcessing = False, concurrency = 2, activeJobs = 0,
      the_renderer = None, inflight = [], loops = 0, fs = d0, issued = {}\<rparr>"

subsection \<open>processJob\<close>

text \<open>
  \<open>this.renderer.renderGLB(...)\<close>; on a null renderer the property access throws. The
  renderer is looked at when the render settles; the source looks at it when the job is
  dispatched, which makes no difference for a queue that is started once.
\<close>

definition callRenderGLB ::
  "renderer option \<Rightarrow> driver \<Rightarrow> disk \<Rightarrow> string \<Rightarrow> options \<Rightarrow> (string + render_result) \<times> disk \<times> rat list" where
  "callRenderGLB ro d disk0 name opts =
     (case ro of
        None \<Rightarrow> (Inl ''Cannot read properties of null (reading 'renderGLB')'', disk0, [])
      | Some r \<Rightarrow> renderGLB r d disk0 name opts)"

text \<open>
  \<open>processRenderJob\<close>: \<open>renderGLB\<close> never calls the \<open>progressCallback\<close> it is handed, so
  the progress of the job changes only after a successful render.
\<close>

definition processRenderJob ::
  "renderer option \<Rightarrow> driver \<Rightarrow> disk \<Rightarrow> job \<Rightarrow> (string + job \<times> job_result) \<times> disk" where
  "processRenderJob ro d disk0 j =
     (case callRenderGLB ro d disk0 (fileName j) (job_options j) of
        (Inl e, disk1, angles) \<Rightarrow> (Inl e, disk1)
      | (Inr res, disk1, angles) \<Rightarrow> (Inr (j\<lparr>progress := 100\<rparr>, RenderResult res), disk1))"

text \<open>The \<open>for\<close> loop of \<open>processBatchJob\<close>; \<open>ds i\<close> is the world during the \<open>i\<close>-th render.\<close>

fun batch_loop ::
  "renderer option \<Rightarrow> (nat \<Rightarrow> driver) \<Rightarrow> nat \<Rightarrow> nat \<Rightarrow> string list \<Rightarrow> disk \<Rightarrow> job \<Rightarrow>
   batch_entry list \<Rightarrow> job \<times> batch_entry list \<times> disk" where
  "batch_loop ro ds tot i [] disk0 j results = (j, results, disk0)"
| "batch_loop ro ds tot i (f # rest) disk0 j results =
     (let j1 = j\<lparr>progress := \<lfloor>(of_nat i / of_nat tot) * (95::rat)\<rfloor>\<rparr> in
      case callRenderGLB ro (ds i) disk0 f (job_options j) of
        (Inr renderResult, disk1, angles) \<Rightarrow>
          batch_loop ro ds tot (Suc i) rest disk1 j1 (results @ [BatchOk f renderResult])
      | (Inl e, disk1, angles) \<Rightarrow>
          batch_loop ro ds tot (Suc i) rest disk1 j1 (results @ [BatchFailed f e]))"

definition is_ok :: "batch_entry \<Rightarrow> bool" where
  "is_ok e = (case e of BatchOk f r \<Rightarrow> True | BatchFailed f m \<Rightarrow> False)"

definition processBatchJob ::
  "renderer option \<Rightarrow> (nat \<Rightarrow> driver) \<Rightarrow> disk \<Rightarrow> job \<Rightarrow> (string + job \<times> job_result) \<times> disk" where
  "processBatchJob ro ds disk0 j =
     (let totalFiles = length (files j);
          (j1, results, disk1) = batch_loop ro ds totalFiles 0 (files j) disk0 j []
      in (Inr (j1, BatchResult \<lparr>totalFiles = totalFiles, entries = results,
                                 successful = length (filter is_ok results),
                                 failed = length (filter (\<lambda>e. \<not> is_ok e) results)\<rparr>), disk1))"

text \<open>
  \<open>processJob\<close> runs synchronously up to its first \<open>await\<close>: the counter is incremented
  and the job marked \<open>processing\<close>. For a type other than \<open>render\<close> and \<open>batch\<close> the
  \<open>switch\<close> throws before any \<open>await\<close>, so \<open>catch\<close> and \<open>finally\<close> run at once.
  Otherwise the activation is suspended (\<open>inflight\<close>) and \<open>processJob_resume\<close> is the rest
  of the body, run when the awaited render settles.
\<close>

definition processJob :: "nat \<Rightarrow> job \<Rightarrow> system \<Rightarrow> system" where
  "processJob now j s =
     (let s1 = s\<lparr>activeJobs := activeJobs s + 1\<rparr>;
          j1 = j\<lparr>status := Processing, startedAt := Some now\<rparr>;
          s2 = s1\<lparr>jobs := (jobs s1)(job_id j1 \<mapsto> j1)\<rparr>
      in if jtype j1 = ''render'' \<or> jtype j1 = ''batch''
         then s2\<lparr>inflight := inflight s2 @ [j1]\<rparr>
         else (let j2 = j1\<lparr>status := Failed, completedAt := Some now,
                            error := Some (''Unknown job type: '' @ jtype j1)\<rparr>;
                   s3 = s2\<lparr>jobs := (jobs s2)(job_id j2 \<mapsto> j2)\<rparr>
               in s3\<lparr>activeJobs := activeJobs s3 - 1\<rparr>))"

definition processJob_resume :: "(nat \<Rightarrow> driver) \<Rightarrow> nat \<Rightarrow> job \<Rightarrow> system \<Rightarrow> system" where
  "processJob_resume ds now j s =
     (let (outcome, disk1) =
            (if jtype j = ''render'' then processRenderJob (the_renderer s) (ds 0) (fs s) j
             else processBatchJob (the_renderer s) ds (fs s) j);
          j2 = (case outcome of
                  Inr (j1, res) \<Rightarrow>
                    j1\<lparr>status := Completed, completedAt := Some now, progress := 100,
                        result := Some res\<rparr>
                | Inl e \<Rightarrow> j\<lparr>status := Failed, completedAt := Some now, error := Some e\<rparr>)
      in s\<lparr>jobs := (jobs s)(job_id j2 \<mapsto> j2), fs := disk1,
            inflight := remove1 j (inflight s), activeJobs := activeJobs s - 1\<rparr>)"

subsection \<open>processQueue\<close>

text \<open>The inner \<open>while\<close> loop: dispatch from the head while a slot is free.\<close>

function dispatchLoop :: "nat \<Rightarrow> system \<Rightarrow> system" where
  "dispatchLoop now s =
     (case queue s of
        [] \<Rightarrow> s
      | j # rest \<Rightarrow>
          if activeJobs s < concurrency s
          then dispatchLoop now (processJob now j (s\<lparr>queue := rest\<rparr>))
          else s)"
  by pat_completeness auto
termination
proof (relation "measure (\<lambda>(now, s). length (queue s))")
  show "wf (measure (\<lambda>(now, s). length (queue s)))" by simp
next
  fix now :: nat and s :: system and j :: job and rest :: "job list"
  assume q: "queue s = j # rest"
  have "queue (processJob now j (s\<lparr>queue := rest\<rparr>)) = rest"
    by (simp add: processJob_def Let_def)
  then show "((now, processJob now j (s\<lparr>queue := rest\<rparr>)), (now, s))
             \<in> measure (\<lambda>(now, s). length (queue s))"
    using q by simp
qed

declare dispatchLoop.simps [simp del]

text \<open>
  One pass of the outer \<open>while\<close> loop, from the test of its condition to the next
  \<open>await this.sleep(1000)\<close> (the activation is then counted in \<open>loops\<close>) or to the exit
  of the loop.
\<close>

definition processQueue_pass :: "nat \<Rightarrow> system \<Rightarrow> system" where
  "processQueue_pass now s =
     (if isProcessing s \<and> (queue s \<noteq> [] \<or> activeJobs s > 0)
      then (let s1 = dispatchLoop now s in s1\<lparr>loops := loops s1 + 1\<rparr>)
      else s\<lparr>isProcessing := False\<rparr>)"

definition processQueue :: "nat \<Rightarrow> system \<Rightarrow> system" where
  "processQueue now s =
     (if the_renderer s = None then s
      else processQueue_pass now (s\<lparr>isProcessing := True\<rparr>))"

text \<open>An activation of \<open>processQueue\<close> returns from \<open>sleep\<close>.\<close>

definition wake :: "nat \<Rightarrow> system \<Rightarrow> system" where
  "wake now s = processQueue_pass now (s\<lparr>loops := loops s - 1\<rparr>)"

subsection \<open>start, stop, addJob, cancelJob, cleanup\<close>

definition start :: "renderer \<Rightarrow> nat \<Rightarrow> system \<Rightarrow> system" where
  "start r now s = processQueue now (s\<lparr>the_renderer := Some r\<rparr>)"

definition stop :: "system \<Rightarrow> system" where
  "stop s = s\<lparr>isProcessing := False\<rparr>"

definition addJob :: "string \<Rightarrow> jobData \<Rightarrow> nat \<Rightarrow> system \<Rightarrow> system" where
  "addJob jobId jobData now s =
     (let j = \<lparr>job_id = jobId, jtype = jd_type jobData, fileName = jd_fileName jobData,
               files = jd_files jobData, job_options = jd_options jobData,
               status = Pending, createdAt = now, startedAt = None, completedAt = None,
               progress = 0, result = None, error = None\<rparr>;
          s1 = s\<lparr>jobs := (jobs s)(jobId \<mapsto> j), queue := queue s @ [j]\<rparr>
      in if \<not> isProcessing s1 then processQueue now s1 else s1)"

text \<open>\<open>Array.prototype.findIndex\<close> (\<open>None\<close> for \<open>-1\<close>) and \<open>splice(index, 1)\<close>.\<close>

fun findIndex :: "('a \<Rightarrow> bool) \<Rightarrow> 'a list \<Rightarrow> nat option" where
  "findIndex P [] = None"
| "findIndex P (x # xs) = (if P x then Some 0 else map_option Suc (findIndex P xs))"

definition splice1 :: "nat \<Rightarrow> 'a list \<Rightarrow> 'a list" where
  "splice1 i xs = take i xs @ drop (Suc i) xs"

definition cancelJob :: "string \<Rightarrow> nat \<Rightarrow> system \<Rightarrow> bool \<times> system" where
  "cancelJob jobId now s =
     (case jobs s jobId of
        None \<Rightarrow> (False, s)
      | Some j \<Rightarrow>
          if status j = Pending
          then (let q = (case findIndex (\<lambda>x. job_id x = jobId) (queue s) of
                           Some queueIndex \<Rightarrow> splice1 queueIndex (queue s)
                         | None \<Rightarrow> queue s);
                    j1 = j\<lparr>status := Cancelled, completedAt := Some now\<rparr>
                in (True, s\<lparr>queue := q, jobs := (jobs s)(jobId \<mapsto> j1)\<rparr>))
          else (False, s))"

text \<open>\<open>cleanup\<close> with \<open>cutoff = Date.now() - maxAge\<close>; the count it returns is not modelled.\<close>

definition cleanup :: "nat \<Rightarrow> system \<Rightarrow> system" where
  "cleanup cutoff s =
     s\<lparr>jobs := (\<lambda>k. case jobs s k of
                       None \<Rightarrow> None
                     | Some j \<Rightarrow>
                         (case completedAt j of
                            None \<Rightarrow> Some j
                          | Some t \<Rightarrow> if t < cutoff then None else Some j))\<rparr>"

subsection \<open>Runs of the system\<close>

text \<open>
  Everything that can happen to the queue: a call of one of its methods, the return of a
  \<open>processQueue\<close> activation from \<open>sleep\<close>, or the settling of the render awaited by the
  in-flight job with the given identifier. \<open>AddJob\<close> carries the identifier \<open>uuidv4()\<close>
  returns, which is one it has not returned before.
\<close>

datatype event =
  Start renderer nat
| Stop
| AddJob string jobData nat
| Wake nat
| Settle string "nat \<Rightarrow> driver" nat
| CancelJob string nat
| Cleanup nat

fun enabled :: "event \<Rightarrow> system \<Rightarrow> bool" where
  "enabled (AddJob jobId jobData now) s = (jobId \<notin> issued s)"
| "enabled (Wake now) s = (0 < loops s)"
| "enabled (Settle jobId ds now) s = (jobId \<in> job_id ` set (inflight s))"
| "enabled e s = True"

fun exec :: "event \<Rightarrow> system \<Rightarrow> system" where
  "exec (Start r now) s = start r now s"
| "exec Stop s = stop s"
| "exec (AddJob jobId jobData now) s = addJob jobId jobData now (s\<lparr>issued := insert jobId (issued s)\<rparr>)"
| "exec (Wake now) s = wake now s"
| "exec (Settle jobId ds now) s =
     (case find (\<lambda>j. job_id j = jobId) (inflight s) of
        None \<Rightarrow> s
      | Some j \<Rightarrow> processJob_resume ds now j s)"
| "exec (CancelJob jobId now) s = snd (cancelJob jobId now s)"
| "exec (Cleanup cutoff) s = cleanup cutoff s"

fun run :: "event list \<Rightarrow> system \<Rightarrow> system option" where
  "run [] s = Some s"
| "run (e # es) s = (if enabled e s then run es (exec e s) else None)"

section \<open>Reference inputs and the statements of the specification\<close>

text \<open>A world in which every call succeeds, and a renderer that has been initialised.\<close>

definition okDriver :: driver where
  "okDriver =
     \<lparr>newPage_err = None, setup_err = None, shoot_view = (\<lambda>k v. Captured 1024),
      ensureDir_err = None, shoot_frame = (\<lambda>i. None), encode_err = None,
      remove_err = (\<lambda>n. None), stat_size = Inr 4096, close_err = None,
      elapsed_ms = 1500, clock_ms = 1712\<rparr>"

definition readyRenderer :: renderer where
  "readyRenderer = \<lparr>browser = True, isInitialized = True\<rparr>"

definition videoOpts :: "rat \<Rightarrow> rat \<Rightarrow> options" where
  "videoOpts d f =
     \<lparr>format = ''mp4'', views = [''perspective''], turntable = True, duration = d, fps = f\<rparr>"

definition gifOpts :: "rat \<Rightarrow> rat \<Rightarrow> options" where
  "gifOpts d f =
     \<lparr>format = ''gif'', views = [''perspective''], turntable = False, duration = d, fps = f\<rparr>"

definition stillOpts :: "string list \<Rightarrow> options" where
  "stillOpts vs = \<lparr>format = ''png'', views = vs, turntable = False, duration = 5, fps = 30\<rparr>"



text \<open>Worlds in which the capture of frame 5 throws; in the second one \<open>fs.remove\<close> rejects too.\<close>

definition failAt5 :: driver where
  "failAt5 = okDriver\<lparr>shoot_frame := (\<lambda>i. if i = 5 then Some ''capture failed'' else None)\<rparr>"

definition failAt5Busy :: driver where
  "failAt5Busy = failAt5\<lparr>remove_err := (\<lambda>n. Some ''EBUSY'')\<rparr>"

text \<open>A render job as \<open>server.js\<close> submits it, and the same job in flight.\<close>

definition renderData :: "options \<Rightarrow> jobData" where
  "renderData opts =
     \<lparr>jd_type = ''render'', jd_fileName = ''model.glb'', jd_files = [], jd_options = opts\<rparr>"

definition demoJob :: "options \<Rightarrow> job" where
  "demoJob opts =
     \<lparr>job_id = ''job-1'', jtype = ''render'', fileName = ''model.glb'', files = [],
      job_options = opts, status = Processing, createdAt = 1, startedAt = Some 2,
      completedAt = None, progress = 0, result = None, error = None\<rparr>"

definition demoSystem :: "options \<Rightarrow> system" where
  "demoSystem opts =
     \<lparr>jobs = [''job-1'' \<mapsto> demoJob opts], queue = [], isProcessing = True, concurrency = 2,
      activeJobs = 1, the_renderer = Some readyRenderer, inflight = [demoJob opts], loops = 1,
      fs = {}, issued = {''job-1''}\<rparr>"

text \<open>Worlds in which the captures of the second and fifth view, or of every view, throw.\<close>

definition twoFail :: driver where
  "twoFail =
     okDriver\<lparr>shoot_view := (\<lambda>k v. if k = 1 \<or> k = 4 then CaptureError ''screenshot failed''
                                   else Captured 1024)\<rparr>"

definition allFail :: driver where
  "allFail = okDriver\<lparr>shoot_view := (\<lambda>k v. CaptureError ''screenshot failed'')\<rparr>"

text \<open>The positions and names of the views whose capture throws.\<close>

definition view_fails :: "driver \<Rightarrow> nat \<times> string \<Rightarrow> bool" where
  "view_fails d kv = (case shoot_view d (fst kv) (snd kv) of CaptureError e \<Rightarrow> True | Captured sz \<Rightarrow> False)"

definition failedViews :: "driver \<Rightarrow> string list \<Rightarrow> (nat \<times> string) list" where
  "failedViews d vs = filter (view_fails d) (enumerate 0 vs)"

text \<open>
  The result of \<open>renderGLB\<close> as the JavaScript object it is: the object literals of
  \<open>renderImages\<close>, \<open>renderVideo\<close>, \<open>renderGIF\<close> and \<open>renderGLB\<close> with their keys, and
  the reading of a property, which yields \<open>undefined\<close> for a key the object does not have.
\<close>

datatype jsval =
  JUndefined | JBool bool | JNum rat | JStr string | JArr "jsval list" | JObj "(string \<times> jsval) list"

definition js_prop :: "jsval \<Rightarrow> string \<Rightarrow> jsval" where
  "js_prop v k =
     (case v of
        JObj kvs \<Rightarrow> (case map_of kvs k of Some x \<Rightarrow> x | None \<Rightarrow> JUndefined)
      | _ \<Rightarrow> JUndefined)"

fun artifact_js :: "artifact \<Rightarrow> jsval" where
  "artifact_js (ImageArtifact v f sz) =
     JObj [(''view'', JStr v), (''fileName'', JStr f), (''path'', JStr (''storage/renders/'' @ f)),
           (''size'', JNum (of_nat sz))]"
| "artifact_js (ClipArtifact t f sz d r n) =
     JObj [(''type'', JStr t), (''fileName'', JStr f), (''path'', JStr (''storage/renders/'' @ f)),
           (''size'', JNum (of_nat sz)), (''duration'', JNum d), (''fps'', JNum r),
           (''frames'', JNum n)]"

definition options_js :: "options \<Rightarrow> jsval" where
  "options_js opts =
     JObj [(''format'', JStr (format opts)), (''views'', JArr (map JStr (views opts))),
           (''turntable'', JBool (turntable opts)), (''duration'', JNum (duration opts)),
           (''fps'', JNum (fps opts))]"

definition render_result_js :: "render_result \<Rightarrow> jsval" where
  "render_result_js res =
     JObj [(''success'', JBool (r_success res)), (''results'', JArr (map artifact_js (r_results res))),
           (''duration'', JNum (of_nat (r_duration res))), (''options'', options_js (r_options res))]"

text \<open>\<open>getJob(id).result\<close> of a render job, when there is one.\<close>

definition renderResultOf :: "system \<Rightarrow> string \<Rightarrow> render_result option" where
  "renderResultOf s k =
     (case jobs s k of
        None \<Rightarrow> None
      | Some j \<Rightarrow> (case result j of Some (RenderResult res) \<Rightarrow> Some res | _ \<Rightarrow> None))"

section \<open>Invariants of the job queue\<close>

text \<open>What the fields of a job object look like in each status.\<close>

definition wf_job :: "job \<Rightarrow> bool" where
  "wf_job j =
     (case status j of
        Pending \<Rightarrow> startedAt j = None \<and> completedAt j = None \<and> progress j = 0
                    \<and> result j = None \<and> error j = None
      | Processing \<Rightarrow> startedAt j \<noteq> None \<and> completedAt j = None \<and> progress j = 0
                    \<and> result j = None \<and> error j = None
      | Completed \<Rightarrow> completedAt j \<noteq> None \<and> progress j = 100
                    \<and> result j \<noteq> None \<and> error j = None
      | Failed \<Rightarrow> completedAt j \<noteq> None \<and> progress j = 0
                    \<and> result j = None \<and> error j \<noteq> None
      | Cancelled \<Rightarrow> completedAt j \<noteq> None \<and> progress j = 0
                    \<and> result j = None \<and> error j = None)"

text \<open>
  The queued objects are the pending entries of the map, the in-flight objects its
  processing entries; the counter counts the in-flight objects and stays within the limit.
\<close>

definition queue_ok :: "system \<Rightarrow> bool" where
  "queue_ok s = (\<forall>j \<in> set (queue s). status j = Pending \<and> jobs s (job_id j) = Some j)"

definition inflight_ok :: "system \<Rightarrow> bool" where
  "inflight_ok s =
     (\<forall>j \<in> set (inflight s). status j = Processing \<and> jobs s (job_id j) = Some j
                               \<and> (jtype j = ''render'' \<or> jtype j = ''batch''))"

definition jobs_ok :: "system \<Rightarrow> bool" where
  "jobs_ok s =
     (\<forall>k j. jobs s k = Some j \<longrightarrow>
        job_id j = k \<and> wf_job j \<and> k \<in> issued s
        \<and> (status j = Pending \<longrightarrow> j \<in> set (queue s))
        \<and> (status j = Processing \<longrightarrow> j \<in> set (inflight s)))"

definition count_ok :: "system \<Rightarrow> bool" where
  "count_ok s =
     (distinct (queue s) \<and> distinct (inflight s) \<and> activeJobs s = int (length (inflight s))
      \<and> activeJobs s \<le> concurrency s \<and> concurrency s = 2)"

definition sys_inv :: "system \<Rightarrow> bool" where
  "sys_inv s = (queue_ok s \<and> inflight_ok s \<and> jobs_ok s \<and> count_ok s)"

text \<open>Job \<open>a\<close> stands in the queue ahead of job \<open>b\<close>.\<close>

fun precedes :: "string \<Rightarrow> string \<Rightarrow> job list \<Rightarrow> bool" where
  "precedes a b [] = False"
| "precedes a b (x # xs) = (if job_id x = a then b \<in> job_id ` set xs else precedes a b xs)"

text \<open>Job \<open>k\<close> has been taken out of the queue by \<open>processJob\<close>.\<close>

definition dispatched :: "string \<Rightarrow> system \<Rightarrow> bool" where
  "dispatched k s =
     (case jobs s k of
        None \<Rightarrow> False
      | Some j \<Rightarrow> status j = Processing \<or> status j = Completed \<or> status j = Failed)"

text \<open>
  While \<open>a\<close> waits in the queue, \<open>b\<close> waits behind it or has been cancelled.
\<close>

definition fifo_inv :: "string \<Rightarrow> string \<Rightarrow> system \<Rightarrow> bool" where
  "fifo_inv a b s =
     (a \<in> issued s \<and> b \<in> issued s
      \<and> (a \<in> job_id ` set (queue s) \<longrightarrow>
            precedes a b (queue s) \<or> (\<forall>j. jobs s b = Some j \<longrightarrow> status j = Cancelled)))"

section \<open>Reference runs\<close>

text \<open>
  Three jobs submitted to a started queue (the first is dispatched at once, the second
  when the loop wakes up, the third waits); a job
  submitted and cancelled before the queue is started; a job whose page cannot be created.
\<close>

definition stillData :: jobData where
  "stillData = renderData (stillOpts [''front''])"

definition threeJobs :: "event list" where
  "threeJobs =
     [Start readyRenderer 0, AddJob ''a'' stillData 1, AddJob ''b'' stillData 2,
      AddJob ''c'' stillData 3, Wake 4]"

definition cancelRun :: "event list" where
  "cancelRun = [AddJob ''a'' stillData 1, CancelJob ''a'' 2]"

definition failRun :: "event list" where
  "failRun =
     [Start readyRenderer 0, AddJob ''a'' stillData 1,
      Settle ''a'' (\<lambda>i. okDriver\<lparr>newPage_err := Some ''no page''\<rparr>) 5]"

definition jobAfter :: "event list \<Rightarrow> string \<Rightarrow> job option" where
  "jobAfter es k = Option.bind (run es (newJobQueue {})) (\<lambda>s. jobs s k)"

text \<open>
  Jobs \<open>a\<close> and \<open>c\<close> are submitted before the queue is started, then \<open>b\<close>; \<open>c\<close> is
  cancelled from the middle of the queue and the queue is started.
\<close>

definition fifoPrefix :: "event list" where
  "fifoPrefix = [AddJob ''a'' stillData 1, AddJob ''c'' stillData 2]"

definition fifoRest :: "event list" where
  "fifoRest = [CancelJob ''c'' 4, Start readyRenderer 5]"

section \<open>View expansion\<close>

text \<open>
  C4 (as stated in the specification, refuted): the sentinel \<open>all\<close> does not expand to
  \<open>front, back, left, right, top, bottom\<close>.
\<close>

theorem expandViews_all_not_canonical:
  "expandViews [''all''] \<noteq> [''front'', ''back'', ''left'', ''right'', ''top'', ''bottom'']"
  by (simp add: expandViews_def)

text \<open>
  C4 (amended): a view list that contains \<open>all\<close> is replaced as a whole by the fixed list
  \<open>front, side, top, perspective, back, bottom\<close>, in that order; a list without \<open>all\<close> is
  returned unchanged, whatever names it holds. The function is total: it never fails.
\<close>

theorem expandViews_correct:
  "(''all'' \<in> set vs \<longrightarrow>
      expandViews vs = [''front'', ''side'', ''top'', ''perspective'', ''back'', ''bottom''])
   \<and> (''all'' \<notin> set vs \<longrightarrow> expandViews vs = vs)"
  by (simp add: expandViews_def)

theorem expandViews_correct_witness:
  "expandViews [''top'', ''all''] = [''front'', ''side'', ''top'', ''perspective'', ''back'', ''bottom'']
   \<and> expandViews [''front'', ''custom''] = [''front'', ''custom'']"
  using expandViews_correct [of "[''top'', ''all'']"] expandViews_correct [of "[''front'', ''custom'']"]
  by simp

section \<open>The frame loop\<close>


lemma captureFrames_length:
  "length (snd (captureFrames d T a k acc)) \<le> length acc + (nat \<lceil>T\<rceil> - k)"
proof (induction d T a k acc rule: captureFrames.induct)
  case (1 d T a k acc)
  show ?case
  proof (cases "of_nat k < T")
    case True
    then have "int k < \<lceil>T\<rceil>" by (simp add: less_ceiling_iff)
    then have lt: "k < nat \<lceil>T\<rceil>" by linarith
    show ?thesis
    proof (cases "shoot_frame d k")
      case None
      then have "captureFrames d T a k acc = captureFrames d T a (Suc k) (acc @ [of_nat k * a])"
        using True by (subst captureFrames.simps) simp
      then show ?thesis using "1.IH"[OF True None] lt by simp
    next
      case (Some e)
      then show ?thesis using True by (subst captureFrames.simps) simp
    qed
  next
    case False
    then show ?thesis by (subst captureFrames.simps) simp
  qed
qed


lemma renderGIF_angles:
  "snd (snd (renderGIF d fs0 name opts)) =
     (if ensureDir_err d = None
      then snd (captureFrames d (min (duration opts) 3 * min (fps opts) 15)
                  (360 / (min (duration opts) 3 * min (fps opts) 15)) 0 [])
      else [])"
  by (simp add: renderGIF_def Let_def split: option.splits prod.splits)





section \<open>GIF clamping\<close>

lemma gif_totalFrames_bound:
  assumes "\<not> (d < 0 \<and> f < 0)"
  shows "nat \<lceil>min d 3 * min f (15::rat)\<rceil> \<le> 45"
proof -
  consider "0 \<le> d \<and> 0 \<le> f" | "d < 0 \<and> 0 \<le> f" | "0 \<le> d \<and> f < 0"
    using assms by linarith
  then have "min d 3 * min f 15 \<le> 45"
  proof cases
    case 1
    have "min d 3 * min f 15 \<le> 3 * 15"
      by (rule mult_mono) (use 1 in auto)
    then show ?thesis by simp
  next
    case 2
    have "min d 3 * min f 15 \<le> 0"
      by (rule mult_nonpos_nonneg) (use 2 in auto)
    then show ?thesis by simp
  next
    case 3
    have "min d 3 * min f 15 \<le> 0"
      by (rule mult_nonneg_nonpos) (use 3 in auto)
    then show ?thesis by simp
  qed
  then have "\<lceil>min d 3 * min f 15\<rceil> \<le> 45" by (simp add: ceiling_le_iff)
  then show ?thesis by linarith
qed

lemma encodeAndClean_artifact:
  "fst (encodeAndClean d dir fs0 mk) = Inr a \<Longrightarrow> \<exists>sz. a = mk sz"
  by (auto simp: encodeAndClean_def fs_remove_def split: option.splits sum.splits)

text \<open>
  C10 (as stated, refuted): a GIF job requested with duration \<open>-10\<close> and frame rate \<open>-10\<close>
  keeps both values (they are below the caps) and captures 100 frames.
\<close>

theorem renderGIF_negative_request:
  "length (snd (snd (renderGIF okDriver {} ''model.glb'' (gifOpts (-10) (-10))))) = 100"
  by code_simp

text \<open>
  C10 (amended): \<open>renderGIF\<close> uses duration \<open>min(duration, 3)\<close> and frame rate
  \<open>min(fps, 15)\<close>. Unless the requested duration and frame rate are both negative, it
  never captures more than 45 frames, whatever the world does; and the object it returns
  reports the clamped duration, the clamped frame rate and their product as \<open>frames\<close>.
\<close>

theorem renderGIF_clamped:
  "(\<not> (duration opts < 0 \<and> fps opts < 0) \<longrightarrow>
      length (snd (snd (renderGIF d fs0 name opts))) \<le> 45)
   \<and> (\<forall>a. fst (renderGIF d fs0 name opts) = Inr a \<longrightarrow>
         (\<exists>sz. a = ClipArtifact ''gif'' (path_name name @ ''_animated.gif'') sz
                   (min (duration opts) 3) (min (fps opts) 15)
                   (min (duration opts) 3 * min (fps opts) 15)))"
proof (intro conjI impI allI)
  assume nn: "\<not> (duration opts < 0 \<and> fps opts < 0)"
  let ?T = "min (duration opts) 3 * min (fps opts) 15"
  have "length (snd (captureFrames d ?T (360 / ?T) 0 [])) \<le> nat \<lceil>?T\<rceil>"
    using captureFrames_length [of d ?T "360 / ?T" 0 "[]"] by simp
  also have "\<dots> \<le> 45" using nn by (rule gif_totalFrames_bound)
  finally show "length (snd (snd (renderGIF d fs0 name opts))) \<le> 45"
    by (simp add: renderGIF_angles)
next
  fix a
  assume ok: "fst (renderGIF d fs0 name opts) = Inr a"
  let ?mk = "\<lambda>sz. ClipArtifact ''gif'' (path_name name @ ''_animated.gif'') sz
                   (min (duration opts) 3) (min (fps opts) 15)
                   (min (duration opts) 3 * min (fps opts) 15)"
  have "fst (encodeAndClean d (gifFrameDir d) (insert (gifFrameDir d) fs0) ?mk) = Inr a"
    using ok by (simp add: renderGIF_def Let_def case_prod_unfold split: option.splits)
  then show "\<exists>sz. a = ?mk sz"
    by (rule encodeAndClean_artifact)
qed

theorem renderGIF_clamped_witness:
  "length (snd (snd (renderGIF okDriver {} ''model.glb'' (gifOpts 5 30)))) \<le> 45
   \<and> (\<exists>sz. ClipArtifact ''gif'' ''model_animated.gif'' 4096 3 15 45 =
             ClipArtifact ''gif'' (path_name ''model.glb'' @ ''_animated.gif'') sz
               (min (duration (gifOpts 5 30)) 3) (min (fps (gifOpts 5 30)) 15)
               (min (duration (gifOpts 5 30)) 3 * min (fps (gifOpts 5 30)) 15))"
proof -
  have nn: "\<not> (duration (gifOpts 5 30) < 0 \<and> fps (gifOpts 5 30) < 0)"
    by (simp add: gifOpts_def)
  have ok: "fst (renderGIF okDriver {} ''model.glb'' (gifOpts 5 30)) =
              Inr (ClipArtifact ''gif'' ''model_animated.gif'' 4096 3 15 45)"
    by code_simp
  show ?thesis
    using renderGIF_clamped [of "gifOpts 5 30" okDriver "{}" "''model.glb''"] nn ok by blast
qed

section \<open>Removal of the frame directory\<close>

lemma encodeAndClean_disk:
  "\<forall>n. remove_err d n = None \<Longrightarrow> snd (encodeAndClean d dir fs0 mk) = fs0 - {dir}"
  by (auto simp: encodeAndClean_def fs_remove_def remove_quiet_def split: option.splits sum.splits)

lemma renderVideo_disk:
  assumes "\<forall>n. remove_err d n = None"
  shows "fst (snd (renderVideo d fs0 name opts)) =
           (if ensureDir_err d = None then fs0 - {videoFrameDir d} else fs0)"
proof (cases "ensureDir_err d")
  case (Some e)
  then show ?thesis by (simp add: renderVideo_def Let_def)
next
  case None
  obtain err angles where cf:
    "captureFrames d (duration opts * fps opts) (360 / (duration opts * fps opts)) 0 [] = (err, angles)"
    by (cases "captureFrames d (duration opts * fps opts) (360 / (duration opts * fps opts)) 0 []") auto
  show ?thesis
  proof (cases err)
    case None
    with \<open>ensureDir_err d = None\<close> cf encodeAndClean_disk [OF assms] show ?thesis
      by (simp add: renderVideo_def Let_def case_prod_unfold)
  next
    case (Some e)
    with \<open>ensureDir_err d = None\<close> cf assms show ?thesis
      by (simp add: renderVideo_def Let_def remove_quiet_def fs_remove_def)
  qed
qed

lemma renderGIF_disk:
  assumes "\<forall>n. remove_err d n = None"
  shows "fst (snd (renderGIF d fs0 name opts)) =
           (if ensureDir_err d = None then fs0 - {gifFrameDir d} else fs0)"
proof (cases "ensureDir_err d")
  case (Some e)
  then show ?thesis by (simp add: renderGIF_def Let_def)
next
  case None
  let ?T = "min (duration opts) 3 * min (fps opts) 15"
  obtain err angles where cf: "captureFrames d ?T (360 / ?T) 0 [] = (err, angles)"
    by (cases "captureFrames d ?T (360 / ?T) 0 []") auto
  show ?thesis
  proof (cases err)
    case None
    with \<open>ensureDir_err d = None\<close> cf encodeAndClean_disk [OF assms] show ?thesis
      by (simp add: renderGIF_def Let_def case_prod_unfold)
  next
    case (Some e)
    with \<open>ensureDir_err d = None\<close> cf assms show ?thesis
      by (simp add: renderGIF_def Let_def remove_quiet_def fs_remove_def)
  qed
qed

lemma renderGLB_disk:
  assumes "\<forall>n. remove_err d n = None"
  shows "fst (snd (renderGLB r d fs0 name opts)) \<subseteq> fs0"
proof -
  have v: "fst (snd (renderVideo d fs0 name opts)) \<subseteq> fs0"
    using renderVideo_disk [OF assms] by auto
  have g: "fst (snd (renderGIF d fs0 name opts)) \<subseteq> fs0"
    using renderGIF_disk [OF assms] by auto
  show ?thesis
    using v g
    by (auto simp: renderGLB_def Let_def split: option.splits prod.splits sum.splits if_splits)
qed

lemma processRenderJob_eq:
  "processRenderJob ro d fs0 j =
     (case fst (callRenderGLB ro d fs0 (fileName j) (job_options j)) of
        Inl e \<Rightarrow> Inl e
      | Inr res \<Rightarrow> Inr (j\<lparr>progress := 100\<rparr>, RenderResult res),
      fst (snd (callRenderGLB ro d fs0 (fileName j) (job_options j))))"
  by (simp add: processRenderJob_def case_prod_unfold split: sum.splits)

lemma callRenderGLB_disk:
  assumes "\<forall>n. remove_err d n = None"
  shows "fst (snd (callRenderGLB ro d fs0 name opts)) \<subseteq> fs0"
  using renderGLB_disk [OF assms] by (cases ro) (simp_all add: callRenderGLB_def)

lemma resume_render_failed:
  assumes "jtype j = ''render''"
    and "fst (callRenderGLB (the_renderer s) (ds 0) (fs s) (fileName j) (job_options j)) = Inl e"
  shows "processJob_resume ds now j s =
           s\<lparr>jobs := (jobs s)(job_id j \<mapsto> j\<lparr>status := Failed, completedAt := Some now, error := Some e\<rparr>),
             fs := fst (snd (callRenderGLB (the_renderer s) (ds 0) (fs s) (fileName j) (job_options j))),
             inflight := remove1 j (inflight s), activeJobs := activeJobs s - 1\<rparr>"
  using assms by (simp add: processJob_resume_def processRenderJob_eq)

lemma resume_render_completed:
  assumes "jtype j = ''render''"
    and "fst (callRenderGLB (the_renderer s) (ds 0) (fs s) (fileName j) (job_options j)) = Inr res"
  shows "processJob_resume ds now j s =
           s\<lparr>jobs := (jobs s)(job_id j \<mapsto> j\<lparr>status := Completed, completedAt := Some now,
                                              progress := 100, result := Some (RenderResult res)\<rparr>),
             fs := fst (snd (callRenderGLB (the_renderer s) (ds 0) (fs s) (fileName j) (job_options j))),
             inflight := remove1 j (inflight s), activeJobs := activeJobs s - 1\<rparr>"
  using assms by (simp add: processJob_resume_def processRenderJob_eq)

lemma resume_render_disk:
  assumes "jtype j = ''render''"
  shows "fs (processJob_resume ds now j s) =
           fst (snd (callRenderGLB (the_renderer s) (ds 0) (fs s) (fileName j) (job_options j)))"
proof (cases "fst (callRenderGLB (the_renderer s) (ds 0) (fs s) (fileName j) (job_options j))")
  case (Inl e)
  show ?thesis using assms Inl by (simp add: resume_render_failed)
next
  case (Inr res)
  show ?thesis using assms Inr by (simp add: resume_render_completed)
qed

lemma resume_render_terminal:
  assumes "jtype j = ''render''"
  shows "\<exists>j'. jobs (processJob_resume ds now j s) (job_id j) = Some j' \<and> status j' \<in> {Completed, Failed}"
proof (cases "fst (callRenderGLB (the_renderer s) (ds 0) (fs s) (fileName j) (job_options j))")
  case (Inl e)
  show ?thesis using assms Inl by (simp add: resume_render_failed)
next
  case (Inr res)
  show ?thesis using assms Inr by (simp add: resume_render_completed)
qed

text \<open>
  C8 (as stated, refuted): a video job of 20 frames whose capture throws at frame 5, in a
  world where \<open>fs.remove\<close> rejects: the \<open>catch\<close> block swallows the rejection, the job
  ends as \<open>failed\<close> and the frame directory is still there.
\<close>

theorem frame_dir_left_behind:
  "videoFrameDir failAt5Busy
     \<in> fs (processJob_resume (\<lambda>i. failAt5Busy) 9 (demoJob (videoOpts 2 10)) (demoSystem (videoOpts 2 10)))
   \<and> map_option status
        (jobs (processJob_resume (\<lambda>i. failAt5Busy) 9 (demoJob (videoOpts 2 10))
                 (demoSystem (videoOpts 2 10))) ''job-1'') = Some Failed"
  by code_simp

text \<open>
  C8 (amended): provided the calls of \<open>fs.remove\<close> succeed, the frame directory created by
  \<open>renderVideo\<close> or \<open>renderGIF\<close> no longer exists when the function is left, on every exit
  path (successful encode, encoder failure, capture failure at any frame, failure of
  \<open>fs.stat\<close>); and when a render job reaches its terminal state (\<open>completed\<close> or
  \<open>failed\<close>) no directory exists that did not exist before the job ran.
\<close>

theorem frame_dir_removed:
  assumes "\<forall>n. remove_err d n = None"
  shows "(ensureDir_err d = None \<longrightarrow> videoFrameDir d \<notin> fst (snd (renderVideo d fs0 name opts)))
       \<and> (ensureDir_err d = None \<longrightarrow> gifFrameDir d \<notin> fst (snd (renderGIF d fs0 name opts)))
       \<and> (jtype j = ''render'' \<and> ds 0 = d \<longrightarrow>
            fs (processJob_resume ds now j s) \<subseteq> fs s
            \<and> (\<exists>j'. jobs (processJob_resume ds now j s) (job_id j) = Some j'
                     \<and> status j' \<in> {Completed, Failed}))"
proof (intro conjI impI)
  assume "ensureDir_err d = None"
  then show "videoFrameDir d \<notin> fst (snd (renderVideo d fs0 name opts))"
    using renderVideo_disk [OF assms] by simp
next
  assume "ensureDir_err d = None"
  then show "gifFrameDir d \<notin> fst (snd (renderGIF d fs0 name opts))"
    using renderGIF_disk [OF assms] by simp
next
  assume a: "jtype j = ''render'' \<and> ds 0 = d"
  then have "fs (processJob_resume ds now j s) =
               fst (snd (callRenderGLB (the_renderer s) d (fs s) (fileName j) (job_options j)))"
    using resume_render_disk [of j ds now s] by simp
  then show "fs (processJob_resume ds now j s) \<subseteq> fs s"
    using callRenderGLB_disk [OF assms] by simp
next
  assume "jtype j = ''render'' \<and> ds 0 = d"
  then show "\<exists>j'. jobs (processJob_resume ds now j s) (job_id j) = Some j'
                  \<and> status j' \<in> {Completed, Failed}"
    using resume_render_terminal by blast
qed

theorem frame_dir_removed_witness:
  "videoFrameDir failAt5 \<notin> fst (snd (renderVideo failAt5 {} ''model.glb'' (videoOpts 2 10)))
   \<and> gifFrameDir failAt5 \<notin> fst (snd (renderGIF failAt5 {} ''model.glb'' (videoOpts 2 10)))
   \<and> fs (processJob_resume (\<lambda>i. failAt5) 9 (demoJob (videoOpts 2 10)) (demoSystem (videoOpts 2 10)))
       \<subseteq> fs (demoSystem (videoOpts 2 10))
   \<and> fst (renderVideo failAt5 {} ''model.glb'' (videoOpts 2 10)) = Inl ''capture failed''"
proof -
  have r: "\<forall>n. remove_err failAt5 n = None" by (simp add: failAt5_def okDriver_def)
  have e: "ensureDir_err failAt5 = None" by (simp add: failAt5_def okDriver_def)
  have t: "jtype (demoJob (videoOpts 2 10)) = ''render''" by (simp add: demoJob_def)
  have f: "fst (renderVideo failAt5 {} ''model.glb'' (videoOpts 2 10)) = Inl ''capture failed''"
    by code_simp
  show ?thesis
    using frame_dir_removed [OF r, of "{}" "''model.glb''" "videoOpts 2 10"
            "demoJob (videoOpts 2 10)" "\<lambda>i. failAt5" 9 "demoSystem (videoOpts 2 10)"] e t f
    by simp
qed

section \<open>Still images: failures of single views\<close>

lemma renderImages_loop_length:
  "length (renderImages_loop d name opts k vs acc) + length (filter (view_fails d) (enumerate k vs))
     = length acc + length vs"
proof (induction vs arbitrary: k acc)
  case Nil
  show ?case by simp
next
  case (Cons v vs)
  show ?case
  proof (cases "shoot_view d k v")
    case (Captured sz)
    then show ?thesis
      using Cons.IH [of "Suc k" "acc @ [ImageArtifact v (path_name name @ ''_'' @ v @ ''.'' @ format opts) sz]"]
      by (simp add: view_fails_def)
  next
    case (CaptureError e)
    then show ?thesis
      using Cons.IH [of "Suc k" acc] by (simp add: view_fails_def)
  qed
qed

lemma renderImages_length:
  "length (renderImages d name opts) + length (failedViews d (expandViews (views opts)))
     = length (expandViews (views opts))"
  using renderImages_loop_length [of d name opts 0 "expandViews (views opts)" "[]"]
  by (simp add: renderImages_def failedViews_def)

lemma renderImages_loop_all_fail:
  "\<forall>k v. \<exists>e. shoot_view d k v = CaptureError e \<Longrightarrow> renderImages_loop d name opts k vs acc = acc"
proof (induction vs arbitrary: k acc)
  case Nil
  show ?case by simp
next
  case (Cons v vs)
  from Cons.prems obtain e where "shoot_view d k v = CaptureError e" by blast
  then show ?case using Cons.IH [OF Cons.prems] by simp
qed

lemma renderGLB_still:
  assumes "format opts \<noteq> ''mp4''" and "\<not> turntable opts"
    and "format opts \<noteq> ''gif''" and "''animated'' \<notin> set (views opts)"
  shows "renderGLB r d fs0 name opts =
           (if \<not> isInitialized r \<or> \<not> browser r then (Inl ''Puppeteer not initialized'', fs0, [])
            else case newPage_err d of
              Some e \<Rightarrow> (Inl e, fs0, [])
            | None \<Rightarrow>
                (case close_err d of
                   Some e \<Rightarrow> (Inl e, fs0, [])
                 | None \<Rightarrow>
                     (case setup_err d of
                        Some e \<Rightarrow> (Inl e, fs0, [])
                      | None \<Rightarrow>
                          (Inr \<lparr>r_success = True, r_results = renderImages d name opts,
                                r_duration = elapsed_ms d, r_options = opts\<rparr>, fs0, []))))"
  using assms by (simp add: renderGLB_def split: option.splits)

lemma js_prop_errors:
  "js_prop (render_result_js res) ''errors'' = JUndefined"
  by (simp add: js_prop_def render_result_js_def)

text \<open>
  C1 (as stated, refuted): six views (\<open>all\<close>) of which two fail. The job completes with
  four artifacts, but its result has no error list: reading \<open>errors\<close> yields \<open>undefined\<close>.
\<close>

theorem still_failures_not_recorded:
  "map_option (\<lambda>res. (length (r_results res), js_prop (render_result_js res) ''errors''))
     (renderResultOf
        (processJob_resume (\<lambda>i. twoFail) 9 (demoJob (stillOpts [''all''])) (demoSystem (stillOpts [''all''])))
        ''job-1'')
   = Some (4, JUndefined)"
  by code_simp

text \<open>
  C1 (amended): in still mode, when the page is set up and closed without error, every
  failure while placing the camera for a view or capturing it is caught and the loop goes
  on with the remaining views: with \<open>N\<close> views of which \<open>K\<close> fail (for any \<open>K\<close>, also
  \<open>K = 0\<close> and \<open>K = N\<close>) the job ends as \<open>completed\<close> with \<open>N - K\<close> artifacts in
  \<open>result.results\<close>. The failures are not recorded in the result, which has no \<open>errors\<close>
  key.
\<close>

theorem still_partial_failure:
  assumes "jtype j = ''render''"
    and "format (job_options j) \<noteq> ''mp4''" and "\<not> turntable (job_options j)"
    and "format (job_options j) \<noteq> ''gif''" and "''animated'' \<notin> set (views (job_options j))"
    and "the_renderer s = Some r" and "isInitialized r" and "browser r"
    and "newPage_err (ds 0) = None" and "setup_err (ds 0) = None" and "close_err (ds 0) = None"
  shows "\<exists>j' res. jobs (processJob_resume ds now j s) (job_id j) = Some j'
           \<and> status j' = Completed \<and> result j' = Some (RenderResult res) \<and> error j' = error j
           \<and> length (r_results res) + length (failedViews (ds 0) (expandViews (views (job_options j))))
               = length (expandViews (views (job_options j)))
           \<and> js_prop (render_result_js res) ''errors'' = JUndefined"
proof -
  let ?res = "\<lparr>r_success = True, r_results = renderImages (ds 0) (fileName j) (job_options j),
               r_duration = elapsed_ms (ds 0), r_options = job_options j\<rparr>"
  have "fst (callRenderGLB (the_renderer s) (ds 0) (fs s) (fileName j) (job_options j)) = Inr ?res"
    using assms by (simp add: callRenderGLB_def renderGLB_still)
  then have "jobs (processJob_resume ds now j s) (job_id j) =
               Some (j\<lparr>status := Completed, completedAt := Some now, progress := 100,
                       result := Some (RenderResult ?res)\<rparr>)"
    using assms(1) by (simp add: resume_render_completed)
  moreover have "length (r_results ?res) + length (failedViews (ds 0) (expandViews (views (job_options j))))
               = length (expandViews (views (job_options j)))"
    by (simp add: renderImages_length)
  ultimately show ?thesis
    using js_prop_errors [of ?res] by simp
qed

theorem still_partial_failure_witness:
  "\<exists>j' res. jobs (processJob_resume (\<lambda>i. twoFail) 9 (demoJob (stillOpts [''all'']))
                   (demoSystem (stillOpts [''all'']))) ''job-1'' = Some j'
      \<and> status j' = Completed \<and> result j' = Some (RenderResult res)
      \<and> length (r_results res) + 2 = 6"
proof -
  let ?j = "demoJob (stillOpts [''all''])" and ?s = "demoSystem (stillOpts [''all''])"
  have o: "job_options ?j = stillOpts [''all'']" by (simp add: demoJob_def)
  have i: "job_id ?j = ''job-1''" by (simp add: demoJob_def)
  have v: "expandViews (views (stillOpts [''all''])) =
             [''front'', ''side'', ''top'', ''perspective'', ''back'', ''bottom'']"
    by (simp add: stillOpts_def expandViews_def)
  have k: "failedViews twoFail [''front'', ''side'', ''top'', ''perspective'', ''back'', ''bottom'']
             = [(1, ''side''), (4, ''back'')]"
    by (simp add: failedViews_def view_fails_def twoFail_def okDriver_def)
  have h1: "jtype ?j = ''render''" by (simp add: demoJob_def)
  have h2: "format (job_options ?j) \<noteq> ''mp4''" unfolding o by (simp add: stillOpts_def)
  have h3: "\<not> turntable (job_options ?j)" unfolding o by (simp add: stillOpts_def)
  have h4: "format (job_options ?j) \<noteq> ''gif''" unfolding o by (simp add: stillOpts_def)
  have h5: "''animated'' \<notin> set (views (job_options ?j))" unfolding o by (simp add: stillOpts_def)
  have h6: "the_renderer ?s = Some readyRenderer" by (simp add: demoSystem_def)
  have h7: "isInitialized readyRenderer" by (simp add: readyRenderer_def)
  have h8: "browser readyRenderer" by (simp add: readyRenderer_def)
  have h9: "newPage_err twoFail = None" by (simp add: twoFail_def okDriver_def)
  have h10: "setup_err twoFail = None" by (simp add: twoFail_def okDriver_def)
  have h11: "close_err twoFail = None" by (simp add: twoFail_def okDriver_def)
  from still_partial_failure [where j = ?j and s = ?s and r = readyRenderer
         and ds = "\<lambda>i. twoFail" and now = 9, OF h1 h2 h3 h4 h5 h6 h7 h8 h9 h10 h11]
  obtain j' res where
    a: "jobs (processJob_resume (\<lambda>i. twoFail) 9 ?j ?s) (job_id ?j) = Some j'"
    and b: "status j' = Completed" and c: "result j' = Some (RenderResult res)"
    and d: "length (r_results res) + length (failedViews twoFail (expandViews (views (job_options ?j))))
              = length (expandViews (views (job_options ?j)))"
    by blast
  from d have "length (r_results res) + 2 = 6" by (simp add: o v k)
  with a b c i show ?thesis by auto
qed

section \<open>Still images: when the job fails\<close>

text \<open>
  C2 (as stated, refuted): every one of the six view captures fails, and the job ends as
  \<open>completed\<close>, not as \<open>failed\<close>.
\<close>

theorem still_total_failure_completes:
  "map_option status
     (jobs (processJob_resume (\<lambda>i. allFail) 9 (demoJob (stillOpts [''all'']))
              (demoSystem (stillOpts [''all'']))) ''job-1'') = Some Completed"
  by code_simp

text \<open>
  C2 (amended): a still-mode job ends as \<open>failed\<close> if and only if an error is thrown
  outside the per-view loop: the renderer is not initialised, or creating, setting up or
  closing the page fails. The view captures do not decide it: when every view capture
  fails and nothing else does, the job ends as \<open>completed\<close> with an empty \<open>results\<close> list.
\<close>

theorem still_failed_iff:
  assumes "jtype j = ''render''"
    and "format (job_options j) \<noteq> ''mp4''" and "\<not> turntable (job_options j)"
    and "format (job_options j) \<noteq> ''gif''" and "''animated'' \<notin> set (views (job_options j))"
    and "the_renderer s = Some r"
  shows "\<exists>j'. jobs (processJob_resume ds now j s) (job_id j) = Some j'
           \<and> status j' \<in> {Completed, Failed}
           \<and> (status j' = Failed \<longleftrightarrow>
                 \<not> isInitialized r \<or> \<not> browser r \<or> newPage_err (ds 0) \<noteq> None
                 \<or> setup_err (ds 0) \<noteq> None \<or> close_err (ds 0) \<noteq> None)
           \<and> ((\<forall>k v. \<exists>e. shoot_view (ds 0) k v = CaptureError e) \<and> status j' = Completed \<longrightarrow>
                 (\<exists>res. result j' = Some (RenderResult res) \<and> r_results res = []))"
proof (cases "\<not> isInitialized r \<or> \<not> browser r \<or> newPage_err (ds 0) \<noteq> None
                 \<or> setup_err (ds 0) \<noteq> None \<or> close_err (ds 0) \<noteq> None")
  case True
  then have "\<exists>e. fst (callRenderGLB (the_renderer s) (ds 0) (fs s) (fileName j) (job_options j)) = Inl e"
    using assms by (auto simp: callRenderGLB_def renderGLB_still split: option.splits)
  then obtain e where
    "fst (callRenderGLB (the_renderer s) (ds 0) (fs s) (fileName j) (job_options j)) = Inl e" ..
  then have "jobs (processJob_resume ds now j s) (job_id j) =
               Some (j\<lparr>status := Failed, completedAt := Some now, error := Some e\<rparr>)"
    using assms(1) by (simp add: resume_render_failed)
  then show ?thesis using True by simp
next
  case False
  let ?res = "\<lparr>r_success = True, r_results = renderImages (ds 0) (fileName j) (job_options j),
               r_duration = elapsed_ms (ds 0), r_options = job_options j\<rparr>"
  have "fst (callRenderGLB (the_renderer s) (ds 0) (fs s) (fileName j) (job_options j)) = Inr ?res"
    using assms False by (simp add: callRenderGLB_def renderGLB_still)
  then have "jobs (processJob_resume ds now j s) (job_id j) =
               Some (j\<lparr>status := Completed, completedAt := Some now, progress := 100,
                       result := Some (RenderResult ?res)\<rparr>)"
    using assms(1) by (simp add: resume_render_completed)
  moreover have "(\<forall>k v. \<exists>e. shoot_view (ds 0) k v = CaptureError e) \<longrightarrow> r_results ?res = []"
    by (simp add: renderImages_def renderImages_loop_all_fail)
  ultimately show ?thesis using False by simp
qed

theorem still_failed_iff_witness:
  "\<exists>j'. jobs (processJob_resume (\<lambda>i. allFail) 9 (demoJob (stillOpts [''all'']))
              (demoSystem (stillOpts [''all'']))) ''job-1'' = Some j'
      \<and> status j' = Completed
      \<and> (\<exists>res. result j' = Some (RenderResult res) \<and> r_results res = [])"
proof -
  let ?j = "demoJob (stillOpts [''all''])" and ?s = "demoSystem (stillOpts [''all''])"
  have o: "job_options ?j = stillOpts [''all'']" by (simp add: demoJob_def)
  have i: "job_id ?j = ''job-1''" by (simp add: demoJob_def)
  have h1: "jtype ?j = ''render''" by (simp add: demoJob_def)
  have h2: "format (job_options ?j) \<noteq> ''mp4''" unfolding o by (simp add: stillOpts_def)
  have h3: "\<not> turntable (job_options ?j)" unfolding o by (simp add: stillOpts_def)
  have h4: "format (job_options ?j) \<noteq> ''gif''" unfolding o by (simp add: stillOpts_def)
  have h5: "''animated'' \<notin> set (views (job_options ?j))" unfolding o by (simp add: stillOpts_def)
  have h6: "the_renderer ?s = Some readyRenderer" by (simp add: demoSystem_def)
  have c: "\<forall>k v. \<exists>e. shoot_view allFail k v = CaptureError e"
    by (simp add: allFail_def okDriver_def)
  have ok: "\<not> (\<not> isInitialized readyRenderer \<or> \<not> browser readyRenderer \<or> newPage_err allFail \<noteq> None
                 \<or> setup_err allFail \<noteq> None \<or> close_err allFail \<noteq> None)"
    by (simp add: allFail_def okDriver_def readyRenderer_def)
  from still_failed_iff [where j = ?j and s = ?s and r = readyRenderer
         and ds = "\<lambda>i. allFail" and now = 9, OF h1 h2 h3 h4 h5 h6]
  obtain j' where
    a: "jobs (processJob_resume (\<lambda>i. allFail) 9 ?j ?s) (job_id ?j) = Some j'"
    and st: "status j' \<in> {Completed, Failed}"
    and f: "status j' = Failed \<longleftrightarrow>
              \<not> isInitialized readyRenderer \<or> \<not> browser readyRenderer \<or> newPage_err allFail \<noteq> None
              \<or> setup_err allFail \<noteq> None \<or> close_err allFail \<noteq> None"
    and e: "(\<forall>k v. \<exists>e. shoot_view allFail k v = CaptureError e) \<and> status j' = Completed \<longrightarrow>
              (\<exists>res. result j' = Some (RenderResult res) \<and> r_results res = [])"
    by blast
  from st f ok have comp: "status j' = Completed" by blast
  with e c have "\<exists>res. result j' = Some (RenderResult res) \<and> r_results res = []" by blast
  with a comp i show ?thesis by auto
qed

section \<open>The invariant is kept by every operation\<close>

lemma sys_inv_newJobQueue: "sys_inv (newJobQueue d0)"
  by (simp add: sys_inv_def queue_ok_def inflight_ok_def jobs_ok_def count_ok_def newJobQueue_def)

lemma sys_inv_isProcessing [simp]: "sys_inv (s\<lparr>isProcessing := x\<rparr>) = sys_inv s"
  by (simp add: sys_inv_def queue_ok_def inflight_ok_def jobs_ok_def count_ok_def)

lemma sys_inv_loops [simp]: "sys_inv (s\<lparr>loops := x\<rparr>) = sys_inv s"
  by (simp add: sys_inv_def queue_ok_def inflight_ok_def jobs_ok_def count_ok_def)

lemma sys_inv_the_renderer [simp]: "sys_inv (s\<lparr>the_renderer := x\<rparr>) = sys_inv s"
  by (simp add: sys_inv_def queue_ok_def inflight_ok_def jobs_ok_def count_ok_def)

lemma sys_inv_fs [simp]: "sys_inv (s\<lparr>fs := x\<rparr>) = sys_inv s"
  by (simp add: sys_inv_def queue_ok_def inflight_ok_def jobs_ok_def count_ok_def)

subsection \<open>Consequences of the invariant\<close>

lemma sys_inv_queued:
  "sys_inv s \<Longrightarrow> j \<in> set (queue s) \<Longrightarrow> status j = Pending \<and> jobs s (job_id j) = Some j"
  by (simp add: sys_inv_def queue_ok_def)

lemma sys_inv_inflight:
  "sys_inv s \<Longrightarrow> j \<in> set (inflight s) \<Longrightarrow>
   status j = Processing \<and> jobs s (job_id j) = Some j \<and> (jtype j = ''render'' \<or> jtype j = ''batch'')"
  by (simp add: sys_inv_def inflight_ok_def)

lemma sys_inv_job:
  "sys_inv s \<Longrightarrow> jobs s k = Some j \<Longrightarrow>
   job_id j = k \<and> wf_job j \<and> k \<in> issued s
   \<and> (status j = Pending \<longrightarrow> j \<in> set (queue s))
   \<and> (status j = Processing \<longrightarrow> j \<in> set (inflight s))"
  unfolding sys_inv_def jobs_ok_def by blast

lemma sys_inv_count:
  "sys_inv s \<Longrightarrow> distinct (queue s) \<and> distinct (inflight s)
     \<and> activeJobs s = int (length (inflight s)) \<and> activeJobs s \<le> concurrency s \<and> concurrency s = 2"
  by (simp add: sys_inv_def count_ok_def)

lemma sys_inv_in_map:
  assumes "sys_inv s" and "z \<in> set (queue s) \<union> set (inflight s)"
  shows "jobs s (job_id z) = Some z"
proof -
  from assms(2) consider "z \<in> set (queue s)" | "z \<in> set (inflight s)" by auto
  then show ?thesis
  proof cases
    case 1
    then show ?thesis using sys_inv_queued [OF assms(1)] by simp
  next
    case 2
    then show ?thesis using sys_inv_inflight [OF assms(1)] by simp
  qed
qed

lemma sys_inv_same_id:
  assumes "sys_inv s" and "x \<in> set (queue s) \<union> set (inflight s)"
    and "y \<in> set (queue s) \<union> set (inflight s)" and "job_id x = job_id y"
  shows "x = y"
proof -
  have "Some x = jobs s (job_id x)" by (rule sys_inv_in_map [OF assms(1,2), symmetric])
  also have "\<dots> = jobs s (job_id y)" by (simp only: assms(4))
  also have "\<dots> = Some y" by (rule sys_inv_in_map [OF assms(1,3)])
  finally have "Some x = Some y" .
  then show ?thesis by (simp only: option.inject)
qed

lemma sys_inv_queue_ids_distinct:
  assumes "sys_inv s"
  shows "distinct (map job_id (queue s))"
proof -
  have "inj_on job_id (set (queue s))"
  proof (rule inj_onI)
    fix x y assume a: "x \<in> set (queue s)" and b: "y \<in> set (queue s)"
      and c: "job_id x = job_id y"
    have "x \<in> set (queue s) \<union> set (inflight s)" using a by simp
    moreover have "y \<in> set (queue s) \<union> set (inflight s)" using b by simp
    ultimately show "x = y" using c by (rule sys_inv_same_id [OF assms])
  qed
  then show ?thesis using sys_inv_count [OF assms] by (simp add: distinct_map)
qed

lemma sys_inv_queue_issued:
  assumes "sys_inv s" and "j \<in> set (queue s)"
  shows "job_id j \<in> issued s"
proof -
  have m: "jobs s (job_id j) = Some j" using sys_inv_queued [OF assms] by simp
  show ?thesis using sys_inv_job [OF assms(1) m] by simp
qed

lemma sys_inv_inflight_issued:
  assumes "sys_inv s" and "j \<in> set (inflight s)"
  shows "job_id j \<in> issued s"
proof -
  have m: "jobs s (job_id j) = Some j" using sys_inv_inflight [OF assms] by simp
  show ?thesis using sys_inv_job [OF assms(1) m] by simp
qed

subsection \<open>processJob and the dispatch loop\<close>

lemma processJob_known:
  assumes "jtype j = ''render'' \<or> jtype j = ''batch''"
  shows "processJob now j s =
           s\<lparr>activeJobs := activeJobs s + 1,
             jobs := (jobs s)(job_id j \<mapsto> j\<lparr>status := Processing, startedAt := Some now\<rparr>),
             inflight := inflight s @ [j\<lparr>status := Processing, startedAt := Some now\<rparr>]\<rparr>"
  using assms by (simp add: processJob_def Let_def)

lemma processJob_unknown:
  assumes "\<not> (jtype j = ''render'' \<or> jtype j = ''batch'')"
  shows "processJob now j s =
           s\<lparr>activeJobs := activeJobs s,
             jobs := (jobs s)(job_id j \<mapsto>
                       j\<lparr>startedAt := Some now, status := Failed, completedAt := Some now,
                         error := Some (''Unknown job type: '' @ jtype j)\<rparr>)\<rparr>"
  using assms by (simp add: processJob_def Let_def)

lemma sys_inv_dispatch_known:
  assumes i: "sys_inv s" and q: "queue s = j # rest" and lt: "activeJobs s < concurrency s"
    and t: "jtype j = ''render'' \<or> jtype j = ''batch''"
  shows "sys_inv (processJob now j (s\<lparr>queue := rest\<rparr>))"
proof -
  let ?j1 = "j\<lparr>status := Processing, startedAt := Some now\<rparr>"
  let ?s' = "s\<lparr>queue := rest, activeJobs := activeJobs s + 1,
               jobs := (jobs s)(job_id j \<mapsto> ?j1), inflight := inflight s @ [?j1]\<rparr>"
  have eq: "processJob now j (s\<lparr>queue := rest\<rparr>) = ?s'"
    using t by (simp add: processJob_known)
  have jq: "j \<in> set (queue s)" using q by simp
  have jp: "status j = Pending" and jm: "jobs s (job_id j) = Some j"
    using sys_inv_queued [OF i jq] by simp_all
  have jw: "wf_job j" and ji: "job_id j \<in> issued s" using sys_inv_job [OF i jm] by simp_all
  have dq: "distinct (j # rest)" using sys_inv_count [OF i] q by simp
  have other_q: "job_id x \<noteq> job_id j" if "x \<in> set rest" for x
  proof
    assume e: "job_id x = job_id j"
    have "x \<in> set (queue s) \<union> set (inflight s)" using that q by simp
    moreover have "j \<in> set (queue s) \<union> set (inflight s)" using jq by simp
    ultimately have "x = j" by (rule sys_inv_same_id [OF i _ _ e])
    then show False using that dq by simp
  qed
  have other_f: "job_id x \<noteq> job_id j" if "x \<in> set (inflight s)" for x
  proof
    assume e: "job_id x = job_id j"
    have "x \<in> set (queue s) \<union> set (inflight s)" using that by simp
    moreover have "j \<in> set (queue s) \<union> set (inflight s)" using jq by simp
    ultimately have "x = j" by (rule sys_inv_same_id [OF i _ _ e])
    then show False using sys_inv_inflight [OF i that] jp by simp
  qed
  have j1new: "?j1 \<notin> set (inflight s)"
  proof
    assume "?j1 \<in> set (inflight s)"
    then show False using other_f [of ?j1] by simp
  qed
  have 1: "queue_ok ?s'"
    unfolding queue_ok_def
  proof
    fix x assume "x \<in> set (queue ?s')"
    then have xr: "x \<in> set rest" by simp
    then have xq: "x \<in> set (queue s)" using q by simp
    show "status x = Pending \<and> jobs ?s' (job_id x) = Some x"
      using sys_inv_queued [OF i xq] other_q [OF xr] by simp
  qed
  have 2: "inflight_ok ?s'"
    unfolding inflight_ok_def
  proof
    fix x assume "x \<in> set (inflight ?s')"
    then consider "x \<in> set (inflight s)" | "x = ?j1" by auto
    then show "status x = Processing \<and> jobs ?s' (job_id x) = Some x
                 \<and> (jtype x = ''render'' \<or> jtype x = ''batch'')"
    proof cases
      case 1
      then show ?thesis using sys_inv_inflight [OF i 1] other_f [OF 1] by simp
    next
      case 2
      then show ?thesis using t by simp
    qed
  qed
  have 3: "jobs_ok ?s'"
    unfolding jobs_ok_def
  proof (intro allI impI)
    fix k x assume a: "jobs ?s' k = Some x"
    show "job_id x = k \<and> wf_job x \<and> k \<in> issued ?s'
          \<and> (status x = Pending \<longrightarrow> x \<in> set (queue ?s'))
          \<and> (status x = Processing \<longrightarrow> x \<in> set (inflight ?s'))"
    proof (cases "k = job_id j")
      case True
      then have "x = ?j1" using a by simp
      then show ?thesis using True jw jp ji by (simp add: wf_job_def)
    next
      case False
      then have m: "jobs s k = Some x" using a by simp
      have xk: "job_id x = k" using sys_inv_job [OF i m] by simp
      have "status x = Pending \<longrightarrow> x \<in> set rest"
      proof
        assume "status x = Pending"
        then have "x \<in> set (j # rest)" using sys_inv_job [OF i m] q by simp
        then show "x \<in> set rest" using xk False by auto
      qed
      then show ?thesis using sys_inv_job [OF i m] by simp
    qed
  qed
  have 4: "count_ok ?s'"
    using sys_inv_count [OF i] dq j1new lt by (simp add: count_ok_def)
  show ?thesis unfolding eq sys_inv_def using 1 2 3 4 by simp
qed

lemma sys_inv_dispatch_unknown:
  assumes i: "sys_inv s" and q: "queue s = j # rest"
    and t: "\<not> (jtype j = ''render'' \<or> jtype j = ''batch'')"
  shows "sys_inv (processJob now j (s\<lparr>queue := rest\<rparr>))"
proof -
  let ?j2 = "j\<lparr>startedAt := Some now, status := Failed, completedAt := Some now,
                error := Some (''Unknown job type: '' @ jtype j)\<rparr>"
  let ?s' = "s\<lparr>queue := rest, activeJobs := activeJobs s, jobs := (jobs s)(job_id j \<mapsto> ?j2)\<rparr>"
  have eq: "processJob now j (s\<lparr>queue := rest\<rparr>) = ?s'"
    using t by (simp add: processJob_unknown)
  have jq: "j \<in> set (queue s)" using q by simp
  have jp: "status j = Pending" and jm: "jobs s (job_id j) = Some j"
    using sys_inv_queued [OF i jq] by simp_all
  have jw: "wf_job j" and ji: "job_id j \<in> issued s" using sys_inv_job [OF i jm] by simp_all
  have dq: "distinct (j # rest)" using sys_inv_count [OF i] q by simp
  have other_q: "job_id x \<noteq> job_id j" if "x \<in> set rest" for x
  proof
    assume e: "job_id x = job_id j"
    have "x \<in> set (queue s) \<union> set (inflight s)" using that q by simp
    moreover have "j \<in> set (queue s) \<union> set (inflight s)" using jq by simp
    ultimately have "x = j" by (rule sys_inv_same_id [OF i _ _ e])
    then show False using that dq by simp
  qed
  have other_f: "job_id x \<noteq> job_id j" if "x \<in> set (inflight s)" for x
  proof
    assume e: "job_id x = job_id j"
    have "x \<in> set (queue s) \<union> set (inflight s)" using that by simp
    moreover have "j \<in> set (queue s) \<union> set (inflight s)" using jq by simp
    ultimately have "x = j" by (rule sys_inv_same_id [OF i _ _ e])
    then show False using sys_inv_inflight [OF i that] jp by simp
  qed
  have 1: "queue_ok ?s'"
    unfolding queue_ok_def
  proof
    fix x assume "x \<in> set (queue ?s')"
    then have xr: "x \<in> set rest" by simp
    then have xq: "x \<in> set (queue s)" using q by simp
    show "status x = Pending \<and> jobs ?s' (job_id x) = Some x"
      using sys_inv_queued [OF i xq] other_q [OF xr] by simp
  qed
  have 2: "inflight_ok ?s'"
    unfolding inflight_ok_def
  proof
    fix x assume "x \<in> set (inflight ?s')"
    then have 1: "x \<in> set (inflight s)" by simp
    show "status x = Processing \<and> jobs ?s' (job_id x) = Some x
                 \<and> (jtype x = ''render'' \<or> jtype x = ''batch'')"
      using sys_inv_inflight [OF i 1] other_f [OF 1] by simp
  qed
  have 3: "jobs_ok ?s'"
    unfolding jobs_ok_def
  proof (intro allI impI)
    fix k x assume a: "jobs ?s' k = Some x"
    show "job_id x = k \<and> wf_job x \<and> k \<in> issued ?s'
          \<and> (status x = Pending \<longrightarrow> x \<in> set (queue ?s'))
          \<and> (status x = Processing \<longrightarrow> x \<in> set (inflight ?s'))"
    proof (cases "k = job_id j")
      case True
      then have "x = ?j2" using a by simp
      then show ?thesis using True jw jp ji by (simp add: wf_job_def)
    next
      case False
      then have m: "jobs s k = Some x" using a by simp
      have xk: "job_id x = k" using sys_inv_job [OF i m] by simp
      have "status x = Pending \<longrightarrow> x \<in> set rest"
      proof
        assume "status x = Pending"
        then have "x \<in> set (j # rest)" using sys_inv_job [OF i m] q by simp
        then show "x \<in> set rest" using xk False by auto
      qed
      then show ?thesis using sys_inv_job [OF i m] by simp
    qed
  qed
  have 4: "count_ok ?s'"
    using sys_inv_count [OF i] dq by (simp add: count_ok_def)
  show ?thesis unfolding eq sys_inv_def using 1 2 3 4 by simp
qed

lemma sys_inv_dispatch:
  assumes "sys_inv s" and "queue s = j # rest" and "activeJobs s < concurrency s"
  shows "sys_inv (processJob now j (s\<lparr>queue := rest\<rparr>))"
proof (cases "jtype j = ''render'' \<or> jtype j = ''batch''")
  case True
  show ?thesis by (rule sys_inv_dispatch_known [OF assms True])
next
  case False
  show ?thesis by (rule sys_inv_dispatch_unknown [OF assms(1,2) False])
qed

lemma sys_inv_dispatchLoop: "sys_inv s \<Longrightarrow> sys_inv (dispatchLoop now s)"
proof (induction now s rule: dispatchLoop.induct)
  case (1 now s)
  show ?case
  proof (cases "queue s")
    case Nil
    then show ?thesis using "1.prems" by (subst dispatchLoop.simps) simp
  next
    case (Cons j rest)
    show ?thesis
    proof (cases "activeJobs s < concurrency s")
      case True
      have "sys_inv (processJob now j (s\<lparr>queue := rest\<rparr>))"
        using sys_inv_dispatch [OF "1.prems" Cons True] .
      then have "sys_inv (dispatchLoop now (processJob now j (s\<lparr>queue := rest\<rparr>)))"
        using "1.IH" [OF Cons True] by simp
      then show ?thesis using Cons True by (subst dispatchLoop.simps) simp
    next
      case False
      then show ?thesis using Cons "1.prems" by (subst dispatchLoop.simps) simp
    qed
  qed
qed

lemma sys_inv_processQueue_pass: "sys_inv s \<Longrightarrow> sys_inv (processQueue_pass now s)"
  by (simp add: processQueue_pass_def Let_def sys_inv_dispatchLoop)

lemma sys_inv_processQueue: "sys_inv s \<Longrightarrow> sys_inv (processQueue now s)"
  by (simp add: processQueue_def sys_inv_processQueue_pass)

lemma sys_inv_wake: "sys_inv s \<Longrightarrow> sys_inv (wake now s)"
  by (simp add: wake_def sys_inv_processQueue_pass)

lemma sys_inv_start: "sys_inv s \<Longrightarrow> sys_inv (start r now s)"
  by (simp add: start_def sys_inv_processQueue)

lemma sys_inv_stop: "sys_inv s \<Longrightarrow> sys_inv (stop s)"
  by (simp add: stop_def)

subsection \<open>The settling of an in-flight job\<close>

lemma batch_loop_job:
  "\<exists>p. fst (batch_loop ro ds tot i fsx disk0 j results) = j\<lparr>progress := p\<rparr>"
proof (induction fsx arbitrary: i disk0 j results)
  case Nil
  have "fst (batch_loop ro ds tot i [] disk0 j results) = j\<lparr>progress := progress j\<rparr>"
    by simp
  then show ?case by (rule exI)
next
  case (Cons f rest)
  let ?j1 = "j\<lparr>progress := \<lfloor>(of_nat i / of_nat tot) * (95::rat)\<rfloor>\<rparr>"
  obtain out disk1 angles where c:
    "callRenderGLB ro (ds i) disk0 f (job_options j) = (out, disk1, angles)"
    by (cases "callRenderGLB ro (ds i) disk0 f (job_options j)") auto
  show ?case
  proof (cases out)
    case (Inl e)
    from Cons.IH [of "Suc i" disk1 ?j1 "results @ [BatchFailed f e]"]
    obtain p where "fst (batch_loop ro ds tot (Suc i) rest disk1 ?j1 (results @ [BatchFailed f e]))
                      = ?j1\<lparr>progress := p\<rparr>" ..
    then have "fst (batch_loop ro ds tot i (f # rest) disk0 j results) = j\<lparr>progress := p\<rparr>"
      using c Inl by (simp add: Let_def)
    then show ?thesis ..
  next
    case (Inr res)
    from Cons.IH [of "Suc i" disk1 ?j1 "results @ [BatchOk f res]"]
    obtain p where "fst (batch_loop ro ds tot (Suc i) rest disk1 ?j1 (results @ [BatchOk f res]))
                      = ?j1\<lparr>progress := p\<rparr>" ..
    then have "fst (batch_loop ro ds tot i (f # rest) disk0 j results) = j\<lparr>progress := p\<rparr>"
      using c Inr by (simp add: Let_def)
    then show ?thesis ..
  qed
qed

lemma processBatchJob_form:
  "\<exists>p res. fst (processBatchJob ro ds disk0 j) = Inr (j\<lparr>progress := p\<rparr>, res)"
proof -
  obtain p where "fst (batch_loop ro ds (length (files j)) 0 (files j) disk0 j []) = j\<lparr>progress := p\<rparr>"
    using batch_loop_job by blast
  then show ?thesis
    by (simp add: processBatchJob_def Let_def case_prod_unfold) (rule exI [of _ p], rule refl)
qed

lemma resume_batch_completed:
  assumes "jtype j \<noteq> ''render''"
  shows "\<exists>res. processJob_resume ds now j s =
           s\<lparr>jobs := (jobs s)(job_id j \<mapsto> j\<lparr>status := Completed, completedAt := Some now,
                                              progress := 100, result := Some res\<rparr>),
             fs := snd (processBatchJob (the_renderer s) ds (fs s) j),
             inflight := remove1 j (inflight s), activeJobs := activeJobs s - 1\<rparr>"
proof -
  obtain p res where
    "fst (processBatchJob (the_renderer s) ds (fs s) j) = Inr (j\<lparr>progress := p\<rparr>, res)"
    using processBatchJob_form by blast
  then have "processJob_resume ds now j s =
           s\<lparr>jobs := (jobs s)(job_id j \<mapsto> j\<lparr>status := Completed, completedAt := Some now,
                                              progress := 100, result := Some res\<rparr>),
             fs := snd (processBatchJob (the_renderer s) ds (fs s) j),
             inflight := remove1 j (inflight s), activeJobs := activeJobs s - 1\<rparr>"
    using assms by (simp add: processJob_resume_def Let_def case_prod_unfold)
  then show ?thesis ..
qed

text \<open>
  The settled job: the in-flight object with either the fields of the \<open>catch\<close> block or
  those of the success path written.
\<close>

lemma resume_form:
  "\<exists>j2 d1. processJob_resume ds now j s =
             s\<lparr>jobs := (jobs s)(job_id j \<mapsto> j2), fs := d1,
               inflight := remove1 j (inflight s), activeJobs := activeJobs s - 1\<rparr>
           \<and> ((\<exists>e. j2 = j\<lparr>status := Failed, completedAt := Some now, error := Some e\<rparr>)
              \<or> (\<exists>res. j2 = j\<lparr>status := Completed, completedAt := Some now,
                                 progress := 100, result := Some res\<rparr>))"
proof (cases "jtype j = ''render''")
  case True
  show ?thesis
  proof (cases "fst (callRenderGLB (the_renderer s) (ds 0) (fs s) (fileName j) (job_options j))")
    case (Inl e)
    show ?thesis
      using resume_render_failed [of j s ds e now, OF True Inl] by blast
  next
    case (Inr res)
    show ?thesis
      using resume_render_completed [of j s ds res now, OF True Inr] by blast
  qed
next
  case False
  show ?thesis using resume_batch_completed [OF False, of ds now s] by blast
qed

lemma sys_inv_resume:
  assumes i: "sys_inv s" and f: "j \<in> set (inflight s)"
  shows "sys_inv (processJob_resume ds now j s)"
proof -
  obtain j2 d1 where eq: "processJob_resume ds now j s =
             s\<lparr>jobs := (jobs s)(job_id j \<mapsto> j2), fs := d1,
               inflight := remove1 j (inflight s), activeJobs := activeJobs s - 1\<rparr>"
    and j2: "(\<exists>e. j2 = j\<lparr>status := Failed, completedAt := Some now, error := Some e\<rparr>)
              \<or> (\<exists>res. j2 = j\<lparr>status := Completed, completedAt := Some now,
                                 progress := 100, result := Some res\<rparr>)"
    using resume_form [of ds now j s] by blast
  let ?s' = "s\<lparr>jobs := (jobs s)(job_id j \<mapsto> j2), fs := d1,
               inflight := remove1 j (inflight s), activeJobs := activeJobs s - 1\<rparr>"
  have jp: "status j = Processing" and jm: "jobs s (job_id j) = Some j"
    using sys_inv_inflight [OF i f] by simp_all
  have jw: "wf_job j" and ji: "job_id j \<in> issued s" using sys_inv_job [OF i jm] by simp_all
  have df: "distinct (inflight s)" using sys_inv_count [OF i] by simp
  have j2id: "job_id j2 = job_id j" using j2 by auto
  have j2st: "status j2 = Failed \<or> status j2 = Completed" using j2 by auto
  have j2wf: "wf_job j2" using j2 jw jp by (auto simp: wf_job_def)
  have other_q: "job_id x \<noteq> job_id j" if "x \<in> set (queue s)" for x
  proof
    assume e: "job_id x = job_id j"
    have "x \<in> set (queue s) \<union> set (inflight s)" using that by simp
    moreover have "j \<in> set (queue s) \<union> set (inflight s)" using f by simp
    ultimately have "x = j" by (rule sys_inv_same_id [OF i _ _ e])
    then show False using sys_inv_queued [OF i that] jp by simp
  qed
  have other_f: "job_id x \<noteq> job_id j" if "x \<in> set (inflight s)" and "x \<noteq> j" for x
  proof
    assume e: "job_id x = job_id j"
    have "x \<in> set (queue s) \<union> set (inflight s)" using that by simp
    moreover have "j \<in> set (queue s) \<union> set (inflight s)" using f by simp
    ultimately have "x = j" by (rule sys_inv_same_id [OF i _ _ e])
    then show False using that by simp
  qed
  have rem: "set (remove1 j (inflight s)) = set (inflight s) - {j}"
    using df by (rule set_remove1_eq)
  have 1: "queue_ok ?s'"
    unfolding queue_ok_def
  proof
    fix x assume "x \<in> set (queue ?s')"
    then have xq: "x \<in> set (queue s)" by simp
    show "status x = Pending \<and> jobs ?s' (job_id x) = Some x"
      using sys_inv_queued [OF i xq] other_q [OF xq] by simp
  qed
  have 2: "inflight_ok ?s'"
    unfolding inflight_ok_def
  proof
    fix x assume "x \<in> set (inflight ?s')"
    then have xf: "x \<in> set (inflight s)" and xj: "x \<noteq> j" using rem by simp_all
    show "status x = Processing \<and> jobs ?s' (job_id x) = Some x
            \<and> (jtype x = ''render'' \<or> jtype x = ''batch'')"
      using sys_inv_inflight [OF i xf] other_f [OF xf xj] by simp
  qed
  have 3: "jobs_ok ?s'"
    unfolding jobs_ok_def
  proof (intro allI impI)
    fix k x assume a: "jobs ?s' k = Some x"
    show "job_id x = k \<and> wf_job x \<and> k \<in> issued ?s'
          \<and> (status x = Pending \<longrightarrow> x \<in> set (queue ?s'))
          \<and> (status x = Processing \<longrightarrow> x \<in> set (inflight ?s'))"
    proof (cases "k = job_id j")
      case True
      then have "x = j2" using a by simp
      then show ?thesis using True j2id j2st j2wf ji by auto
    next
      case False
      then have m: "jobs s k = Some x" using a by simp
      have xk: "job_id x = k" using sys_inv_job [OF i m] by simp
      then have "x \<noteq> j" using False by auto
      then show ?thesis using sys_inv_job [OF i m] rem by simp
    qed
  qed
  obtain n where len: "length (inflight s) = Suc n"
    using f by (cases "inflight s") auto
  have "length (remove1 j (inflight s)) = n"
    using f len by (simp add: length_remove1)
  then have 4: "count_ok ?s'"
    using sys_inv_count [OF i] df len by (simp add: count_ok_def)
  show ?thesis unfolding eq sys_inv_def using 1 2 3 4 by simp
qed

subsection \<open>addJob\<close>

lemma sys_inv_push:
  assumes i: "sys_inv s" and n: "jobId \<notin> issued s"
    and j: "j = \<lparr>job_id = jobId, jtype = t, fileName = fn, files = fl, job_options = opts,
                 status = Pending, createdAt = now, startedAt = None, completedAt = None,
                 progress = 0, result = None, error = None\<rparr>"
  shows "sys_inv (s\<lparr>issued := insert jobId (issued s), jobs := (jobs s)(jobId \<mapsto> j),
                    queue := queue s @ [j]\<rparr>)"
proof -
  let ?s' = "s\<lparr>issued := insert jobId (issued s), jobs := (jobs s)(jobId \<mapsto> j),
                queue := queue s @ [j]\<rparr>"
  have jid: "job_id j = jobId" and jst: "status j = Pending" and jwf: "wf_job j"
    using j by (simp_all add: wf_job_def)
  have fresh_q: "job_id x \<noteq> jobId" if "x \<in> set (queue s)" for x
    using sys_inv_queue_issued [OF i that] n by auto
  have fresh_f: "job_id x \<noteq> jobId" if "x \<in> set (inflight s)" for x
    using sys_inv_inflight_issued [OF i that] n by auto
  have jnew: "j \<notin> set (queue s)" using fresh_q [of j] jid by auto
  have 1: "queue_ok ?s'"
    unfolding queue_ok_def
  proof
    fix x assume "x \<in> set (queue ?s')"
    then consider "x \<in> set (queue s)" | "x = j" by auto
    then show "status x = Pending \<and> jobs ?s' (job_id x) = Some x"
    proof cases
      case 1
      then show ?thesis using sys_inv_queued [OF i 1] fresh_q [OF 1] by simp
    next
      case 2
      then show ?thesis using jid jst by simp
    qed
  qed
  have 2: "inflight_ok ?s'"
    unfolding inflight_ok_def
  proof
    fix x assume "x \<in> set (inflight ?s')"
    then have xf: "x \<in> set (inflight s)" by simp
    show "status x = Processing \<and> jobs ?s' (job_id x) = Some x
            \<and> (jtype x = ''render'' \<or> jtype x = ''batch'')"
      using sys_inv_inflight [OF i xf] fresh_f [OF xf] by simp
  qed
  have 3: "jobs_ok ?s'"
    unfolding jobs_ok_def
  proof (intro allI impI)
    fix k x assume a: "jobs ?s' k = Some x"
    show "job_id x = k \<and> wf_job x \<and> k \<in> issued ?s'
          \<and> (status x = Pending \<longrightarrow> x \<in> set (queue ?s'))
          \<and> (status x = Processing \<longrightarrow> x \<in> set (inflight ?s'))"
    proof (cases "k = jobId")
      case True
      then have "x = j" using a by simp
      then show ?thesis using True jid jst jwf by simp
    next
      case False
      then have m: "jobs s k = Some x" using a by simp
      show ?thesis using sys_inv_job [OF i m] by simp
    qed
  qed
  have 4: "count_ok ?s'"
    using sys_inv_count [OF i] jnew by (simp add: count_ok_def)
  show ?thesis unfolding sys_inv_def using 1 2 3 4 by simp
qed

lemma addJob_eq:
  "addJob jobId jobData now (s\<lparr>issued := insert jobId (issued s)\<rparr>) =
     (let j = \<lparr>job_id = jobId, jtype = jd_type jobData, fileName = jd_fileName jobData,
               files = jd_files jobData, job_options = jd_options jobData,
               status = Pending, createdAt = now, startedAt = None, completedAt = None,
               progress = 0, result = None, error = None\<rparr>;
          s1 = s\<lparr>issued := insert jobId (issued s), jobs := (jobs s)(jobId \<mapsto> j),
                 queue := queue s @ [j]\<rparr>
      in if isProcessing s then s1 else processQueue now s1)"
  by (simp add: addJob_def Let_def)

lemma sys_inv_addJob:
  assumes "sys_inv s" and "jobId \<notin> issued s"
  shows "sys_inv (addJob jobId jobData now (s\<lparr>issued := insert jobId (issued s)\<rparr>))"
  unfolding addJob_eq Let_def
  using sys_inv_push [OF assms refl] by (simp add: sys_inv_processQueue)

subsection \<open>cancelJob\<close>

lemma findIndex_splice1:
  assumes "\<forall>x \<in> set xs. P x \<longleftrightarrow> x = j"
  shows "(case findIndex P xs of Some i \<Rightarrow> splice1 i xs | None \<Rightarrow> xs) = remove1 j xs"
  using assms
proof (induction xs)
  case Nil
  show ?case by simp
next
  case (Cons x xs)
  have ih: "(case findIndex P xs of Some i \<Rightarrow> splice1 i xs | None \<Rightarrow> xs) = remove1 j xs"
    using Cons by simp
  show ?case
  proof (cases "P x")
    case True
    then have "x = j" using Cons.prems by simp
    then show ?thesis using True by (simp add: splice1_def)
  next
    case False
    then have "x \<noteq> j" using Cons.prems by auto
    then show ?thesis
      using False ih by (cases "findIndex P xs") (simp_all add: splice1_def)
  qed
qed

lemma cancelJob_pending:
  assumes i: "sys_inv s" and m: "jobs s jobId = Some j" and p: "status j = Pending"
  shows "cancelJob jobId now s =
           (True, s\<lparr>queue := remove1 j (queue s),
                    jobs := (jobs s)(jobId \<mapsto> j\<lparr>status := Cancelled, completedAt := Some now\<rparr>)\<rparr>)"
proof -
  have jid: "job_id j = jobId" using sys_inv_job [OF i m] by simp
  have jq: "j \<in> set (queue s)" using sys_inv_job [OF i m] p by simp
  have "\<forall>x \<in> set (queue s). (job_id x = jobId) \<longleftrightarrow> x = j"
  proof
    fix x assume xq: "x \<in> set (queue s)"
    show "(job_id x = jobId) \<longleftrightarrow> x = j"
    proof
      assume e: "job_id x = jobId"
      have "jobs s (job_id x) = Some x" using sys_inv_queued [OF i xq] by simp
      then have "Some x = Some j" using e m by simp
      then show "x = j" by (simp only: option.inject)
    next
      assume "x = j"
      then show "job_id x = jobId" using jid by simp
    qed
  qed
  then have "(case findIndex (\<lambda>x. job_id x = jobId) (queue s) of
                Some i \<Rightarrow> splice1 i (queue s) | None \<Rightarrow> queue s) = remove1 j (queue s)"
    by (rule findIndex_splice1)
  then show ?thesis using m p by (simp add: cancelJob_def Let_def)
qed

lemma cancelJob_not_pending:
  "jobs s jobId = None \<or> (\<exists>j. jobs s jobId = Some j \<and> status j \<noteq> Pending) \<Longrightarrow>
   cancelJob jobId now s = (False, s)"
  by (auto simp: cancelJob_def)

lemma sys_inv_cancel_pending:
  assumes i: "sys_inv s" and m: "jobs s jobId = Some j" and p: "status j = Pending"
  shows "sys_inv (s\<lparr>queue := remove1 j (queue s),
                    jobs := (jobs s)(jobId \<mapsto> j\<lparr>status := Cancelled, completedAt := Some now\<rparr>)\<rparr>)"
proof -
  let ?j1 = "j\<lparr>status := Cancelled, completedAt := Some now\<rparr>"
  let ?s' = "s\<lparr>queue := remove1 j (queue s), jobs := (jobs s)(jobId \<mapsto> ?j1)\<rparr>"
  have jid: "job_id j = jobId" and jw: "wf_job j" and ji: "jobId \<in> issued s"
    and jq: "j \<in> set (queue s)"
    using sys_inv_job [OF i m] p by simp_all
  have dq: "distinct (queue s)" using sys_inv_count [OF i] by simp
  have rem: "set (remove1 j (queue s)) = set (queue s) - {j}"
    using dq by (rule set_remove1_eq)
  have other_q: "job_id x \<noteq> jobId" if "x \<in> set (queue s)" and "x \<noteq> j" for x
  proof
    assume e: "job_id x = jobId"
    have "jobs s (job_id x) = Some x" using sys_inv_queued [OF i that(1)] by simp
    then have "Some x = Some j" using e m by simp
    then have "x = j" by (simp only: option.inject)
    then show False using that(2) by simp
  qed
  have other_f: "job_id x \<noteq> jobId" if "x \<in> set (inflight s)" for x
  proof
    assume e: "job_id x = jobId"
    have "jobs s (job_id x) = Some x" and "status x = Processing"
      using sys_inv_inflight [OF i that] by simp_all
    then have "Some x = Some j" using e m by simp
    then have "x = j" by (simp only: option.inject)
    then show False using \<open>status x = Processing\<close> p by simp
  qed
  have 1: "queue_ok ?s'"
    unfolding queue_ok_def
  proof
    fix x assume "x \<in> set (queue ?s')"
    then have xq: "x \<in> set (queue s)" and xj: "x \<noteq> j" using rem by simp_all
    show "status x = Pending \<and> jobs ?s' (job_id x) = Some x"
      using sys_inv_queued [OF i xq] other_q [OF xq xj] by simp
  qed
  have 2: "inflight_ok ?s'"
    unfolding inflight_ok_def
  proof
    fix x assume "x \<in> set (inflight ?s')"
    then have xf: "x \<in> set (inflight s)" by simp
    show "status x = Processing \<and> jobs ?s' (job_id x) = Some x
            \<and> (jtype x = ''render'' \<or> jtype x = ''batch'')"
      using sys_inv_inflight [OF i xf] other_f [OF xf] by simp
  qed
  have 3: "jobs_ok ?s'"
    unfolding jobs_ok_def
  proof (intro allI impI)
    fix k x assume a: "jobs ?s' k = Some x"
    show "job_id x = k \<and> wf_job x \<and> k \<in> issued ?s'
          \<and> (status x = Pending \<longrightarrow> x \<in> set (queue ?s'))
          \<and> (status x = Processing \<longrightarrow> x \<in> set (inflight ?s'))"
    proof (cases "k = jobId")
      case True
      then have "x = ?j1" using a by simp
      then show ?thesis using True jid jw p ji by (simp add: wf_job_def)
    next
      case False
      then have m': "jobs s k = Some x" using a by simp
      have "job_id x = k" using sys_inv_job [OF i m'] by simp
      then have "x \<noteq> j" using False jid by auto
      then show ?thesis using sys_inv_job [OF i m'] rem by simp
    qed
  qed
  have 4: "count_ok ?s'"
    using sys_inv_count [OF i] by (simp add: count_ok_def)
  show ?thesis unfolding sys_inv_def using 1 2 3 4 by simp
qed

lemma sys_inv_cancelJob:
  assumes "sys_inv s"
  shows "sys_inv (snd (cancelJob jobId now s))"
proof (cases "jobs s jobId")
  case None
  then show ?thesis using assms by (simp add: cancelJob_not_pending)
next
  case (Some j)
  show ?thesis
  proof (cases "status j = Pending")
    case True
    show ?thesis
      using sys_inv_cancel_pending [OF assms Some True, of now]
      by (simp add: cancelJob_pending [OF assms Some True])
  next
    case False
    then have "cancelJob jobId now s = (False, s)"
      using Some by (simp add: cancelJob_not_pending)
    then show ?thesis using assms by simp
  qed
qed

subsection \<open>cleanup\<close>

lemma cleanup_jobs:
  "jobs (cleanup cutoff s) k = Some j \<Longrightarrow> jobs s k = Some j"
  by (auto simp: cleanup_def split: option.splits if_splits)

lemma cleanup_keeps:
  "jobs s k = Some j \<Longrightarrow> completedAt j = None \<Longrightarrow> jobs (cleanup cutoff s) k = Some j"
  by (simp add: cleanup_def)

lemma cleanup_fields [simp]:
  "queue (cleanup cutoff s) = queue s" "inflight (cleanup cutoff s) = inflight s"
  "issued (cleanup cutoff s) = issued s" "activeJobs (cleanup cutoff s) = activeJobs s"
  "concurrency (cleanup cutoff s) = concurrency s"
  by (simp_all add: cleanup_def)

lemma sys_inv_cleanup:
  assumes i: "sys_inv s"
  shows "sys_inv (cleanup cutoff s)"
proof -
  have 1: "queue_ok (cleanup cutoff s)"
    unfolding queue_ok_def
  proof
    fix x assume "x \<in> set (queue (cleanup cutoff s))"
    then have xq: "x \<in> set (queue s)" by simp
    have st: "status x = Pending" and m: "jobs s (job_id x) = Some x"
      using sys_inv_queued [OF i xq] by simp_all
    have "wf_job x" using sys_inv_job [OF i m] by simp
    then have "completedAt x = None" using st by (simp add: wf_job_def)
    then show "status x = Pending \<and> jobs (cleanup cutoff s) (job_id x) = Some x"
      using st cleanup_keeps [OF m] by simp
  qed
  have 2: "inflight_ok (cleanup cutoff s)"
    unfolding inflight_ok_def
  proof
    fix x assume "x \<in> set (inflight (cleanup cutoff s))"
    then have xf: "x \<in> set (inflight s)" by simp
    have st: "status x = Processing" and m: "jobs s (job_id x) = Some x"
      and ty: "jtype x = ''render'' \<or> jtype x = ''batch''"
      using sys_inv_inflight [OF i xf] by simp_all
    have "wf_job x" using sys_inv_job [OF i m] by simp
    then have "completedAt x = None" using st by (simp add: wf_job_def)
    then show "status x = Processing \<and> jobs (cleanup cutoff s) (job_id x) = Some x
                 \<and> (jtype x = ''render'' \<or> jtype x = ''batch'')"
      using st ty cleanup_keeps [OF m] by simp
  qed
  have 3: "jobs_ok (cleanup cutoff s)"
    unfolding jobs_ok_def
  proof (intro allI impI)
    fix k x assume "jobs (cleanup cutoff s) k = Some x"
    then have m: "jobs s k = Some x" by (rule cleanup_jobs)
    show "job_id x = k \<and> wf_job x \<and> k \<in> issued (cleanup cutoff s)
          \<and> (status x = Pending \<longrightarrow> x \<in> set (queue (cleanup cutoff s)))
          \<and> (status x = Processing \<longrightarrow> x \<in> set (inflight (cleanup cutoff s)))"
      using sys_inv_job [OF i m] by simp
  qed
  have 4: "count_ok (cleanup cutoff s)"
    using sys_inv_count [OF i] by (simp add: count_ok_def)
  show ?thesis unfolding sys_inv_def using 1 2 3 4 by simp
qed

subsection \<open>Runs\<close>

lemma sys_inv_exec:
  assumes "sys_inv s" and "enabled e s"
  shows "sys_inv (exec e s)"
proof (cases e)
  case (Start r now)
  then show ?thesis using assms by (simp add: sys_inv_start)
next
  case Stop
  then show ?thesis using assms by (simp add: sys_inv_stop)
next
  case (AddJob jobId jobData now)
  then show ?thesis using assms by (simp add: sys_inv_addJob)
next
  case (Wake now)
  then show ?thesis using assms by (simp add: sys_inv_wake)
next
  case (Settle jobId ds now)
  show ?thesis
  proof (cases "find (\<lambda>j. job_id j = jobId) (inflight s)")
    case None
    then show ?thesis using Settle assms by simp
  next
    case (Some j)
    then have "j \<in> set (inflight s)" by (auto simp: find_Some_iff)
    then show ?thesis using Settle Some assms by (simp add: sys_inv_resume)
  qed
next
  case (CancelJob jobId now)
  then show ?thesis using assms by (simp add: sys_inv_cancelJob)
next
  case (Cleanup cutoff)
  then show ?thesis using assms by (simp add: sys_inv_cleanup)
qed

lemma sys_inv_run:
  "sys_inv s \<Longrightarrow> run es s = Some s' \<Longrightarrow> sys_inv s'"
proof (induction es arbitrary: s)
  case Nil
  then show ?case by simp
next
  case (Cons e es)
  from Cons.prems(2) have en: "enabled e s" and r: "run es (exec e s) = Some s'"
    by (simp_all split: if_splits)
  show ?case using Cons.IH [OF sys_inv_exec [OF Cons.prems(1) en] r] .
qed

lemma sys_inv_reachable:
  "run es (newJobQueue d0) = Some s \<Longrightarrow> sys_inv s"
  using sys_inv_run [OF sys_inv_newJobQueue] .

section \<open>The concurrency bound\<close>

lemma dispatchLoop_full:
  "concurrency s \<le> activeJobs s \<Longrightarrow> dispatchLoop now s = s"
  by (subst dispatchLoop.simps) (simp split: list.splits)

lemma resume_counter:
  "activeJobs (processJob_resume ds now j s) = activeJobs s - 1
   \<and> inflight (processJob_resume ds now j s) = remove1 j (inflight s)"
proof -
  obtain j2 d1 where "processJob_resume ds now j s =
             s\<lparr>jobs := (jobs s)(job_id j \<mapsto> j2), fs := d1,
               inflight := remove1 j (inflight s), activeJobs := activeJobs s - 1\<rparr>"
    using resume_form [of ds now j s] by blast
  then show ?thesis by simp
qed

lemma run_defined:
  "\<not> Option.is_none (run es s) \<Longrightarrow> \<exists>s'. run es s = Some s'"
  by (cases "run es s") simp_all

text \<open>
  C6: in every state the queue can reach, \<open>activeJobs\<close> is at most \<open>concurrency\<close> and
  equals the number of in-flight jobs; the dispatch loop takes nothing from the queue
  unless \<open>activeJobs < concurrency\<close>, and every single dispatch keeps the bound;
  dispatching a job increments the counter (a job of unknown type fails at once, and its
  \<open>finally\<close> block has then already decremented it again), and the settling of an
  in-flight job, successful or not, decrements it once and ends the activation.
\<close>

theorem concurrency_bound:
  assumes "run es (newJobQueue d0) = Some s"
  shows "activeJobs s \<le> concurrency s
       \<and> activeJobs s = int (length (inflight s))
       \<and> (concurrency s \<le> activeJobs s \<longrightarrow> dispatchLoop now s = s)
       \<and> (queue s = j # rest \<and> activeJobs s < concurrency s \<longrightarrow>
            activeJobs (processJob now j (s\<lparr>queue := rest\<rparr>))
              \<le> concurrency (processJob now j (s\<lparr>queue := rest\<rparr>)))
       \<and> (jtype j = ''render'' \<or> jtype j = ''batch'' \<longrightarrow>
            activeJobs (processJob now j s) = activeJobs s + 1)
       \<and> (\<not> (jtype j = ''render'' \<or> jtype j = ''batch'') \<longrightarrow>
            activeJobs (processJob now j s) = activeJobs s)
       \<and> (j \<in> set (inflight s) \<longrightarrow>
            activeJobs (processJob_resume ds now j s) = activeJobs s - 1
            \<and> j \<notin> set (inflight (processJob_resume ds now j s)))"
proof -
  have i: "sys_inv s" using assms by (rule sys_inv_reachable)
  have d: "distinct (inflight s)" using sys_inv_count [OF i] by simp
  have r: "j \<notin> set (remove1 j (inflight s))" using d by simp
  have step: "activeJobs (processJob now j (s\<lparr>queue := rest\<rparr>))
                \<le> concurrency (processJob now j (s\<lparr>queue := rest\<rparr>))"
    if "queue s = j # rest \<and> activeJobs s < concurrency s"
  proof -
    have "sys_inv (processJob now j (s\<lparr>queue := rest\<rparr>))"
      using sys_inv_dispatch [OF i] that by simp
    then show ?thesis using sys_inv_count by blast
  qed
  have known: "activeJobs (processJob now j s) = activeJobs s + 1"
    if "jtype j = ''render'' \<or> jtype j = ''batch''"
    using that by (simp add: processJob_known)
  have unknown: "activeJobs (processJob now j s) = activeJobs s"
    if "\<not> (jtype j = ''render'' \<or> jtype j = ''batch'')"
    using that by (simp add: processJob_unknown)
  show ?thesis
    using sys_inv_count [OF i] dispatchLoop_full [of s now] resume_counter [of ds now j s]
      r step known unknown
    by simp
qed

theorem concurrency_bound_witness:
  "\<exists>s. run threeJobs (newJobQueue {}) = Some s
      \<and> activeJobs s = 2 \<and> length (inflight s) = 2 \<and> length (queue s) = 1
      \<and> activeJobs s \<le> concurrency s \<and> dispatchLoop 5 s = s"
proof -
  have "\<not> Option.is_none (run threeJobs (newJobQueue {}))" by code_simp
  then obtain s where r: "run threeJobs (newJobQueue {}) = Some s"
    using run_defined by blast
  have "map_option (\<lambda>s. (activeJobs s, concurrency s, length (queue s))) (run threeJobs (newJobQueue {}))
          = Some (2, 2, 1)"
    by code_simp
  then have v: "activeJobs s = 2" "concurrency s = 2" "length (queue s) = 1" using r by simp_all
  from concurrency_bound [OF r, of 5] v
  have "activeJobs s \<le> concurrency s" "activeJobs s = int (length (inflight s))"
    "dispatchLoop 5 s = s"
    by simp_all
  then show ?thesis using r v by simp
qed

section \<open>Terminal states\<close>

text \<open>
  C3 (as stated, refuted): a job cancelled while pending is terminal with neither
  \<open>result\<close> nor \<open>error\<close> populated; and a job that fails keeps progress 0.
\<close>

theorem terminal_fields_counterexample:
  "map_option (\<lambda>j. (status j, Option.is_none (result j), Option.is_none (error j)))
     (jobAfter cancelRun ''a'') = Some (Cancelled, True, True)
   \<and> map_option (\<lambda>j. (status j, progress j)) (jobAfter failRun ''a'') = Some (Failed, 0)"
  by code_simp

text \<open>
  C3 (amended): for every job in a state the queue can reach: a \<open>completed\<close> job has
  \<open>result\<close> populated, \<open>error\<close> empty and progress 100; a \<open>failed\<close> job has \<open>error\<close>
  populated, \<open>result\<close> empty and a progress other than 100; a \<open>cancelled\<close> job has
  neither \<open>result\<close> nor \<open>error\<close> and a progress other than 100. So exactly one of
  \<open>result\<close> and \<open>error\<close> is populated for \<open>completed\<close> and \<open>failed\<close> jobs, and among
  the terminal states progress is 100 exactly for \<open>completed\<close>.
\<close>

theorem terminal_fields:
  assumes "run es (newJobQueue d0) = Some s" and "jobs s k = Some j"
  shows "(status j = Completed \<longrightarrow> result j \<noteq> None \<and> error j = None \<and> progress j = 100)
       \<and> (status j = Failed \<longrightarrow> result j = None \<and> error j \<noteq> None \<and> progress j \<noteq> 100)
       \<and> (status j = Cancelled \<longrightarrow> result j = None \<and> error j = None \<and> progress j \<noteq> 100)"
proof -
  have i: "sys_inv s" using assms(1) by (rule sys_inv_reachable)
  have "wf_job j" using sys_inv_job [OF i assms(2)] by simp
  then show ?thesis by (cases "status j") (simp_all add: wf_job_def)
qed

theorem terminal_fields_witness:
  "\<exists>j. jobAfter failRun ''a'' = Some j \<and> status j = Failed
      \<and> result j = None \<and> error j \<noteq> None \<and> progress j \<noteq> 100"
proof -
  have "\<not> Option.is_none (run failRun (newJobQueue {}))" by code_simp
  then obtain s where r: "run failRun (newJobQueue {}) = Some s"
    using run_defined by blast
  have st: "map_option status (jobAfter failRun ''a'') = Some Failed" by code_simp
  then obtain j where m: "jobs s ''a'' = Some j" and f: "status j = Failed"
    using r by (auto simp: jobAfter_def)
  from terminal_fields [OF r m] f
  have "result j = None \<and> error j \<noteq> None \<and> progress j \<noteq> 100" by simp
  then show ?thesis using r m f by (simp add: jobAfter_def)
qed

section \<open>Cancellation\<close>

lemma queue_unique_id:
  assumes i: "sys_inv s" and m: "jobs s k = Some j" and xq: "x \<in> set (queue s)"
    and e: "job_id x = k"
  shows "x = j"
proof -
  have "jobs s (job_id x) = Some x" using sys_inv_queued [OF i xq] by simp
  then have "Some x = Some j" using e m by simp
  then show ?thesis by (simp only: option.inject)
qed

text \<open>
  C9: in every state the queue can reach, cancelling a \<open>pending\<close> job succeeds: \<open>cancelJob\<close>
  returns \<open>true\<close>, the job is no longer in the queue, and the job is the old one with
  status \<open>cancelled\<close> and \<open>completedAt\<close> set. For a job in any other status, and for an
  unknown identifier, \<open>cancelJob\<close> returns \<open>false\<close> and changes nothing.
\<close>

theorem cancel_pending_only:
  assumes "run es (newJobQueue d0) = Some s"
  shows "(\<forall>j. jobs s jobId = Some j \<and> status j = Pending \<longrightarrow>
            (\<exists>s'. cancelJob jobId now s = (True, s')
                   \<and> jobId \<notin> job_id ` set (queue s')
                   \<and> queue s' = remove1 j (queue s)
                   \<and> jobs s' jobId = Some (j\<lparr>status := Cancelled, completedAt := Some now\<rparr>)))
       \<and> (jobs s jobId = None \<or> (\<exists>j. jobs s jobId = Some j \<and> status j \<noteq> Pending) \<longrightarrow>
            cancelJob jobId now s = (False, s))"
proof (intro conjI allI impI)
  fix j assume a: "jobs s jobId = Some j \<and> status j = Pending"
  have i: "sys_inv s" using assms by (rule sys_inv_reachable)
  have m: "jobs s jobId = Some j" and p: "status j = Pending" using a by simp_all
  let ?s' = "s\<lparr>queue := remove1 j (queue s),
               jobs := (jobs s)(jobId \<mapsto> j\<lparr>status := Cancelled, completedAt := Some now\<rparr>)\<rparr>"
  have c: "cancelJob jobId now s = (True, ?s')" by (rule cancelJob_pending [OF i m p])
  have dq: "distinct (queue s)" using sys_inv_count [OF i] by simp
  have "jobId \<notin> job_id ` set (remove1 j (queue s))"
  proof
    assume "jobId \<in> job_id ` set (remove1 j (queue s))"
    then obtain x where x: "x \<in> set (remove1 j (queue s))" and e: "job_id x = jobId" by auto
    have xq: "x \<in> set (queue s)" and xj: "x \<noteq> j"
      using x set_remove1_eq [OF dq, of j] by simp_all
    show False using queue_unique_id [OF i m xq e] xj by simp
  qed
  then show "\<exists>s'. cancelJob jobId now s = (True, s')
                   \<and> jobId \<notin> job_id ` set (queue s')
                   \<and> queue s' = remove1 j (queue s)
                   \<and> jobs s' jobId = Some (j\<lparr>status := Cancelled, completedAt := Some now\<rparr>)"
    using c by simp
next
  assume "jobs s jobId = None \<or> (\<exists>j. jobs s jobId = Some j \<and> status j \<noteq> Pending)"
  then show "cancelJob jobId now s = (False, s)" by (rule cancelJob_not_pending)
qed

theorem cancel_pending_only_witness:
  "\<exists>s. run threeJobs (newJobQueue {}) = Some s
      \<and> fst (cancelJob ''c'' 9 s) \<and> ''c'' \<notin> job_id ` set (queue (snd (cancelJob ''c'' 9 s)))
      \<and> map_option status (jobs (snd (cancelJob ''c'' 9 s)) ''c'') = Some Cancelled
      \<and> map_option completedAt (jobs (snd (cancelJob ''c'' 9 s)) ''c'') = Some (Some 9)
      \<and> cancelJob ''a'' 9 s = (False, s)"
proof -
  have "\<not> Option.is_none (run threeJobs (newJobQueue {}))" by code_simp
  then obtain s where r: "run threeJobs (newJobQueue {}) = Some s"
    using run_defined by blast
  have "map_option status (jobAfter threeJobs ''c'') = Some Pending" by code_simp
  then obtain jc where mc: "jobs s ''c'' = Some jc" and pc: "status jc = Pending"
    using r by (auto simp: jobAfter_def)
  have "map_option status (jobAfter threeJobs ''a'') = Some Processing" by code_simp
  then obtain ja where ma: "jobs s ''a'' = Some ja" and pa: "status ja = Processing"
    using r by (auto simp: jobAfter_def)
  from cancel_pending_only [OF r, of "''c''" 9] mc pc
  obtain s' where c: "cancelJob ''c'' 9 s = (True, s')"
    and q: "''c'' \<notin> job_id ` set (queue s')"
    and j: "jobs s' ''c'' = Some (jc\<lparr>status := Cancelled, completedAt := Some 9\<rparr>)"
    by blast
  from cancel_pending_only [OF r, of "''a''" 9] ma pa
  have "cancelJob ''a'' 9 s = (False, s)" by simp
  then show ?thesis using r c q j by simp
qed

section \<open>First in, first out\<close>

lemma precedes_mem:
  "precedes a b q \<Longrightarrow> a \<in> job_id ` set q \<and> b \<in> job_id ` set q"
  by (induction q) (auto split: if_splits)

lemma precedes_append:
  "precedes a b q \<Longrightarrow> precedes a b (q @ ys)"
  by (induction q) (auto split: if_splits)

lemma precedes_snoc:
  "a \<in> job_id ` set q \<Longrightarrow> precedes a (job_id x) (q @ [x])"
  by (induction q) auto

lemma precedes_remove1:
  "precedes a b q \<Longrightarrow> job_id x \<noteq> a \<Longrightarrow> job_id x \<noteq> b \<Longrightarrow> precedes a b (remove1 x q)"
proof (induction q)
  case Nil
  then show ?case by simp
next
  case (Cons y ys)
  show ?case
  proof (cases "job_id y = a")
    case True
    then have yx: "y \<noteq> x" using Cons.prems(2) by auto
    from Cons.prems(1) True obtain z where z: "z \<in> set ys" and zb: "job_id z = b" by auto
    then have "z \<noteq> x" using Cons.prems(3) by auto
    then have "z \<in> set (remove1 x ys)" using z by simp
    then have "b \<in> job_id ` set (remove1 x ys)" using zb by auto
    then show ?thesis using True yx by simp
  next
    case False
    then have p: "precedes a b ys" using Cons.prems(1) by simp
    show ?thesis
    proof (cases "y = x")
      case True
      then show ?thesis using p by simp
    next
      case False
      then show ?thesis
        using \<open>job_id y \<noteq> a\<close> Cons.IH [OF p Cons.prems(2,3)] by simp
    qed
  qed
qed

lemma fifo_inv_isProcessing [simp]: "fifo_inv a b (s\<lparr>isProcessing := x\<rparr>) = fifo_inv a b s"
  by (simp add: fifo_inv_def)

lemma fifo_inv_loops [simp]: "fifo_inv a b (s\<lparr>loops := x\<rparr>) = fifo_inv a b s"
  by (simp add: fifo_inv_def)

lemma fifo_inv_the_renderer [simp]: "fifo_inv a b (s\<lparr>the_renderer := x\<rparr>) = fifo_inv a b s"
  by (simp add: fifo_inv_def)

lemma processJob_fields:
  "queue (processJob now j s) = queue s"
  "issued (processJob now j s) = issued s"
  "k \<noteq> job_id j \<Longrightarrow> jobs (processJob now j s) k = jobs s k"
  by (simp_all add: processJob_def Let_def)

lemma fifo_inv_dispatch:
  assumes i: "sys_inv s" and q: "queue s = j # rest" and g: "fifo_inv a b s"
  shows "fifo_inv a b (processJob now j (s\<lparr>queue := rest\<rparr>))"
proof -
  let ?s' = "processJob now j (s\<lparr>queue := rest\<rparr>)"
  have qs: "queue ?s' = rest" and iss: "issued ?s' = issued s"
    by (simp_all add: processJob_fields)
  have jq: "j \<in> set (queue s)" using q by simp
  have jp: "status j = Pending" and jm: "jobs s (job_id j) = Some j"
    using sys_inv_queued [OF i jq] by simp_all
  have di: "distinct (map job_id (j # rest))" using sys_inv_queue_ids_distinct [OF i] q by simp
  have ab: "a \<in> issued s" "b \<in> issued s" using g by (simp_all add: fifo_inv_def)
  have "precedes a b rest \<or> (\<forall>x. jobs ?s' b = Some x \<longrightarrow> status x = Cancelled)"
    if ar: "a \<in> job_id ` set rest"
  proof -
    have ja: "job_id j \<noteq> a" using di ar by auto
    have "a \<in> job_id ` set (queue s)" using ar q by simp
    then consider "precedes a b (j # rest)" | "\<forall>x. jobs s b = Some x \<longrightarrow> status x = Cancelled"
      using g q by (auto simp: fifo_inv_def)
    then show ?thesis
    proof cases
      case 1
      then show ?thesis using ja by simp
    next
      case 2
      have "b \<noteq> job_id j"
      proof
        assume "b = job_id j"
        then have "status j = Cancelled" using 2 jm by simp
        then show False using jp by simp
      qed
      then have "jobs ?s' b = jobs s b" by (simp add: processJob_fields)
      then show ?thesis using 2 by simp
    qed
  qed
  then show ?thesis using ab by (simp add: fifo_inv_def qs iss)
qed

lemma fifo_inv_dispatchLoop:
  "sys_inv s \<Longrightarrow> fifo_inv a b s \<Longrightarrow> fifo_inv a b (dispatchLoop now s)"
proof (induction now s rule: dispatchLoop.induct)
  case (1 now s)
  show ?case
  proof (cases "queue s")
    case Nil
    then show ?thesis using "1.prems" by (subst dispatchLoop.simps) simp
  next
    case (Cons j rest)
    show ?thesis
    proof (cases "activeJobs s < concurrency s")
      case True
      have i': "sys_inv (processJob now j (s\<lparr>queue := rest\<rparr>))"
        using sys_inv_dispatch [OF "1.prems"(1) Cons True] .
      have g': "fifo_inv a b (processJob now j (s\<lparr>queue := rest\<rparr>))"
        using fifo_inv_dispatch [OF "1.prems"(1) Cons "1.prems"(2)] .
      have "fifo_inv a b (dispatchLoop now (processJob now j (s\<lparr>queue := rest\<rparr>)))"
        using "1.IH" [OF Cons True i' g'] .
      then show ?thesis using Cons True by (subst dispatchLoop.simps) simp
    next
      case False
      then show ?thesis using Cons "1.prems" by (subst dispatchLoop.simps) simp
    qed
  qed
qed

lemma fifo_inv_processQueue_pass:
  "sys_inv s \<Longrightarrow> fifo_inv a b s \<Longrightarrow> fifo_inv a b (processQueue_pass now s)"
  by (simp add: processQueue_pass_def Let_def fifo_inv_dispatchLoop)

lemma fifo_inv_processQueue:
  "sys_inv s \<Longrightarrow> fifo_inv a b s \<Longrightarrow> fifo_inv a b (processQueue now s)"
  by (simp add: processQueue_def fifo_inv_processQueue_pass)

lemma fifo_inv_push:
  assumes i: "sys_inv s" and n: "c \<notin> issued s" and g: "fifo_inv a b s" and jc: "job_id j = c"
  shows "fifo_inv a b (s\<lparr>issued := insert c (issued s), jobs := (jobs s)(c \<mapsto> j),
                          queue := queue s @ [j]\<rparr>)"
proof -
  have ab: "a \<in> issued s" "b \<in> issued s" using g by (simp_all add: fifo_inv_def)
  then have ca: "c \<noteq> a" and cb: "c \<noteq> b" using n by auto
  have "precedes a b (queue s @ [j]) \<or> (\<forall>x. jobs s b = Some x \<longrightarrow> status x = Cancelled)"
    if "a \<in> job_id ` set (queue s @ [j])"
  proof -
    have "a \<in> job_id ` set (queue s)" using that ca jc by auto
    then consider "precedes a b (queue s)" | "\<forall>x. jobs s b = Some x \<longrightarrow> status x = Cancelled"
      using g by (auto simp: fifo_inv_def)
    then show ?thesis
    proof cases
      case 1
      then show ?thesis using precedes_append by blast
    next
      case 2
      then show ?thesis by simp
    qed
  qed
  then show ?thesis using ab cb by (simp add: fifo_inv_def)
qed

lemma fifo_inv_push_new:
  assumes i: "sys_inv s" and n: "b \<notin> issued s" and a: "a \<in> job_id ` set (queue s)"
    and jb: "job_id j = b"
  shows "fifo_inv a b (s\<lparr>issued := insert b (issued s), jobs := (jobs s)(b \<mapsto> j),
                          queue := queue s @ [j]\<rparr>)"
proof -
  obtain x where xq: "x \<in> set (queue s)" and xa: "job_id x = a" using a by auto
  have ai: "a \<in> issued s" using sys_inv_queue_issued [OF i xq] xa by simp
  have "precedes a b (queue s @ [j])" using precedes_snoc [OF a, of j] jb by simp
  then show ?thesis using ai by (simp add: fifo_inv_def)
qed

lemma fifo_inv_resume:
  assumes i: "sys_inv s" and f: "j \<in> set (inflight s)" and g: "fifo_inv a b s"
  shows "fifo_inv a b (processJob_resume ds now j s)"
proof -
  obtain j2 d1 where eq: "processJob_resume ds now j s =
             s\<lparr>jobs := (jobs s)(job_id j \<mapsto> j2), fs := d1,
               inflight := remove1 j (inflight s), activeJobs := activeJobs s - 1\<rparr>"
    using resume_form [of ds now j s] by blast
  have jp: "status j = Processing" and jm: "jobs s (job_id j) = Some j"
    using sys_inv_inflight [OF i f] by simp_all
  have ab: "a \<in> issued s" "b \<in> issued s" using g by (simp_all add: fifo_inv_def)
  have "precedes a b (queue s)
        \<or> (\<forall>x. ((jobs s)(job_id j \<mapsto> j2)) b = Some x \<longrightarrow> status x = Cancelled)"
    if aq: "a \<in> job_id ` set (queue s)"
  proof -
    consider "precedes a b (queue s)" | "\<forall>x. jobs s b = Some x \<longrightarrow> status x = Cancelled"
      using g aq by (auto simp: fifo_inv_def)
    then show ?thesis
    proof cases
      case 1
      then show ?thesis by simp
    next
      case 2
      have "b \<noteq> job_id j"
      proof
        assume "b = job_id j"
        then have "status j = Cancelled" using 2 jm by simp
        then show False using jp by simp
      qed
      then show ?thesis using 2 by simp
    qed
  qed
  then show ?thesis unfolding eq using ab by (simp add: fifo_inv_def)
qed

lemma fifo_inv_cancel_pending:
  assumes i: "sys_inv s" and m: "jobs s k = Some j" and p: "status j = Pending"
    and g: "fifo_inv a b s"
  shows "fifo_inv a b (s\<lparr>queue := remove1 j (queue s),
                          jobs := (jobs s)(k \<mapsto> j\<lparr>status := Cancelled, completedAt := Some now\<rparr>)\<rparr>)"
proof -
  have jid: "job_id j = k" using sys_inv_job [OF i m] by simp
  have dq: "distinct (queue s)" using sys_inv_count [OF i] by simp
  have rem: "set (remove1 j (queue s)) = set (queue s) - {j}" using dq by (rule set_remove1_eq)
  have ab: "a \<in> issued s" "b \<in> issued s" using g by (simp_all add: fifo_inv_def)
  have "precedes a b (remove1 j (queue s))
        \<or> (\<forall>x. ((jobs s)(k \<mapsto> j\<lparr>status := Cancelled, completedAt := Some now\<rparr>)) b = Some x
                 \<longrightarrow> status x = Cancelled)"
    if ar: "a \<in> job_id ` set (remove1 j (queue s))"
  proof (cases "k = b")
    case True
    then show ?thesis by simp
  next
    case False
    obtain x where xq: "x \<in> set (queue s)" and xj: "x \<noteq> j" and xa: "job_id x = a"
      using ar rem by auto
    have ka: "k \<noteq> a"
    proof
      assume "k = a"
      then have "x = j" using queue_unique_id [OF i m xq] xa by simp
      then show False using xj by simp
    qed
    have "a \<in> job_id ` set (queue s)" using xq xa by auto
    then consider "precedes a b (queue s)" | "\<forall>x. jobs s b = Some x \<longrightarrow> status x = Cancelled"
      using g by (auto simp: fifo_inv_def)
    then show ?thesis
    proof cases
      case 1
      then have "precedes a b (remove1 j (queue s))"
        using precedes_remove1 [of a b "queue s" j] jid ka False by simp
      then show ?thesis by simp
    next
      case 2
      then show ?thesis using False by simp
    qed
  qed
  then show ?thesis using ab by (simp add: fifo_inv_def)
qed

lemma fifo_inv_cleanup:
  assumes g: "fifo_inv a b s"
  shows "fifo_inv a b (cleanup cutoff s)"
proof -
  have ab: "a \<in> issued s" "b \<in> issued s" using g by (simp_all add: fifo_inv_def)
  have c: "status x = Cancelled"
    if h: "\<forall>x. jobs s b = Some x \<longrightarrow> status x = Cancelled"
      and m: "jobs (cleanup cutoff s) b = Some x" for x
    using h cleanup_jobs [OF m] by simp
  have "precedes a b (queue s)
        \<or> (\<forall>x. jobs (cleanup cutoff s) b = Some x \<longrightarrow> status x = Cancelled)"
    if aq: "a \<in> job_id ` set (queue s)"
  proof -
    consider "precedes a b (queue s)" | "\<forall>x. jobs s b = Some x \<longrightarrow> status x = Cancelled"
      using g aq by (auto simp: fifo_inv_def)
    then show ?thesis
    proof cases
      case 1
      then show ?thesis by simp
    next
      case 2
      have "\<forall>x. jobs (cleanup cutoff s) b = Some x \<longrightarrow> status x = Cancelled"
      proof (intro allI impI)
        fix x assume "jobs (cleanup cutoff s) b = Some x"
        then show "status x = Cancelled" using c [OF 2] by simp
      qed
      then show ?thesis by simp
    qed
  qed
  then show ?thesis using ab by (simp add: fifo_inv_def)
qed

lemma fifo_inv_exec:
  assumes i: "sys_inv s" and en: "enabled e s" and g: "fifo_inv a b s"
  shows "fifo_inv a b (exec e s)"
proof (cases e)
  case (Start r now)
  then show ?thesis using i g by (simp add: start_def fifo_inv_processQueue)
next
  case Stop
  then show ?thesis using g by (simp add: stop_def)
next
  case (AddJob c jobData now)
  let ?j = "\<lparr>job_id = c, jtype = jd_type jobData, fileName = jd_fileName jobData,
              files = jd_files jobData, job_options = jd_options jobData,
              status = Pending, createdAt = now, startedAt = None, completedAt = None,
              progress = 0, result = None, error = None\<rparr>"
  let ?s1 = "s\<lparr>issued := insert c (issued s), jobs := (jobs s)(c \<mapsto> ?j), queue := queue s @ [?j]\<rparr>"
  have n: "c \<notin> issued s" using en AddJob by simp
  have i1: "sys_inv ?s1" using sys_inv_push [OF i n refl] .
  have g1: "fifo_inv a b ?s1" using fifo_inv_push [OF i n g, of ?j] by simp
  have "fifo_inv a b (if isProcessing s then ?s1 else processQueue now ?s1)"
    using i1 g1 by (simp add: fifo_inv_processQueue)
  then show ?thesis using AddJob by (simp add: addJob_eq Let_def)
next
  case (Wake now)
  then show ?thesis using i g by (simp add: wake_def fifo_inv_processQueue_pass)
next
  case (Settle jobId ds now)
  show ?thesis
  proof (cases "find (\<lambda>j. job_id j = jobId) (inflight s)")
    case None
    then show ?thesis using Settle g by simp
  next
    case (Some j)
    then have "j \<in> set (inflight s)" by (auto simp: find_Some_iff)
    then show ?thesis using Settle Some i g by (simp add: fifo_inv_resume)
  qed
next
  case (CancelJob k now)
  show ?thesis
  proof (cases "jobs s k")
    case None
    then show ?thesis using CancelJob g by (simp add: cancelJob_not_pending)
  next
    case (Some j)
    show ?thesis
    proof (cases "status j = Pending")
      case True
      show ?thesis
        using fifo_inv_cancel_pending [OF i Some True g, of now] CancelJob
        by (simp add: cancelJob_pending [OF i Some True])
    next
      case False
      then have "cancelJob k now s = (False, s)" using Some by (simp add: cancelJob_not_pending)
      then show ?thesis using CancelJob g by simp
    qed
  qed
next
  case (Cleanup cutoff)
  then show ?thesis using g by (simp add: fifo_inv_cleanup)
qed

lemma fifo_inv_run:
  "sys_inv s \<Longrightarrow> fifo_inv a b s \<Longrightarrow> run es s = Some s' \<Longrightarrow> fifo_inv a b s'"
proof (induction es arbitrary: s)
  case Nil
  then show ?case by simp
next
  case (Cons e es)
  from Cons.prems(3) have en: "enabled e s" and r: "run es (exec e s) = Some s'"
    by (simp_all split: if_splits)
  show ?case
    using Cons.IH [OF sys_inv_exec [OF Cons.prems(1) en]
                      fifo_inv_exec [OF Cons.prems(1) en Cons.prems(2)] r] .
qed

lemma run_append:
  "run (es1 @ es2) s = Option.bind (run es1 s) (run es2)"
  by (induction es1 arbitrary: s) simp_all

text \<open>
  C7: let job \<open>a\<close> be waiting in the queue when job \<open>b\<close> is submitted (so \<open>a\<close> was
  submitted before \<open>b\<close> and both are pending together). Whatever happens afterwards,
  cancellations from the middle of the queue included: once \<open>b\<close> has been dispatched,
  \<open>a\<close> is no longer waiting; it was dispatched no later than \<open>b\<close>, or cancelled.
\<close>

theorem fifo_dispatch:
  assumes "run es1 (newJobQueue d0) = Some s1"
    and "a \<in> job_id ` set (queue s1)"
    and "run (AddJob b jobData now # es2) s1 = Some s2"
    and "dispatched b s2"
  shows "a \<notin> job_id ` set (queue s2) \<and> (\<forall>j. jobs s2 a = Some j \<longrightarrow> status j \<noteq> Pending)"
proof -
  have i1: "sys_inv s1" using assms(1) by (rule sys_inv_reachable)
  from assms(3) have en: "enabled (AddJob b jobData now) s1"
    and r: "run es2 (exec (AddJob b jobData now) s1) = Some s2"
    by (simp_all split: if_splits)
  have n: "b \<notin> issued s1" using en by simp
  let ?j = "\<lparr>job_id = b, jtype = jd_type jobData, fileName = jd_fileName jobData,
              files = jd_files jobData, job_options = jd_options jobData,
              status = Pending, createdAt = now, startedAt = None, completedAt = None,
              progress = 0, result = None, error = None\<rparr>"
  let ?p = "s1\<lparr>issued := insert b (issued s1), jobs := (jobs s1)(b \<mapsto> ?j), queue := queue s1 @ [?j]\<rparr>"
  have ip: "sys_inv ?p" using sys_inv_push [OF i1 n refl] .
  have gp: "fifo_inv a b ?p" using fifo_inv_push_new [OF i1 n assms(2), of ?j] by simp
  have "fifo_inv a b (if isProcessing s1 then ?p else processQueue now ?p)"
    using ip gp by (simp add: fifo_inv_processQueue)
  then have g1: "fifo_inv a b (exec (AddJob b jobData now) s1)"
    by (simp add: addJob_eq Let_def)
  have i1': "sys_inv (exec (AddJob b jobData now) s1)" using sys_inv_exec [OF i1 en] .
  have i2: "sys_inv s2" using sys_inv_run [OF i1' r] .
  have g2: "fifo_inv a b s2" using fifo_inv_run [OF i1' g1 r] .
  have notq: "a \<notin> job_id ` set (queue s2)"
  proof
    assume aq: "a \<in> job_id ` set (queue s2)"
    then consider "precedes a b (queue s2)" | "\<forall>x. jobs s2 b = Some x \<longrightarrow> status x = Cancelled"
      using g2 by (auto simp: fifo_inv_def)
    then show False
    proof cases
      case 1
      then have "b \<in> job_id ` set (queue s2)" using precedes_mem by blast
      then obtain x where xq: "x \<in> set (queue s2)" and xb: "job_id x = b" by auto
      have "status x = Pending" and "jobs s2 (job_id x) = Some x"
        using sys_inv_queued [OF i2 xq] by simp_all
      then show False using assms(4) xb by (simp add: dispatched_def)
    next
      case 2
      then show False using assms(4) by (auto simp: dispatched_def split: option.splits)
    qed
  qed
  have "status j \<noteq> Pending" if m: "jobs s2 a = Some j" for j
  proof
    assume "status j = Pending"
    then have "j \<in> set (queue s2)" and "job_id j = a" using sys_inv_job [OF i2 m] by simp_all
    then show False using notq by auto
  qed
  then show ?thesis using notq by simp
qed

theorem fifo_dispatch_witness:
  "\<exists>s1 s2. run fifoPrefix (newJobQueue {}) = Some s1
      \<and> map job_id (queue s1) = [''a'', ''c'']
      \<and> run (AddJob ''b'' stillData 3 # fifoRest) s1 = Some s2
      \<and> dispatched ''b'' s2 \<and> ''a'' \<notin> job_id ` set (queue s2)"
proof -
  have "\<not> Option.is_none (run fifoPrefix (newJobQueue {}))" by code_simp
  then obtain s1 where r1: "run fifoPrefix (newJobQueue {}) = Some s1"
    using run_defined by blast
  have "map_option (\<lambda>s. map job_id (queue s)) (run fifoPrefix (newJobQueue {})) = Some [''a'', ''c'']"
    by code_simp
  then have q1: "map job_id (queue s1) = [''a'', ''c'']" using r1 by simp
  have "set (map job_id (queue s1)) = {''a'', ''c''}" by (simp only: q1) simp
  then have a1: "''a'' \<in> job_id ` set (queue s1)" by simp
  have "\<not> Option.is_none (run (fifoPrefix @ AddJob ''b'' stillData 3 # fifoRest) (newJobQueue {}))"
    by code_simp
  then obtain s2 where "run (fifoPrefix @ AddJob ''b'' stillData 3 # fifoRest) (newJobQueue {}) = Some s2"
    using run_defined by blast
  then have r2: "run (AddJob ''b'' stillData 3 # fifoRest) s1 = Some s2"
    using r1 by (simp add: run_append)
  have "map_option (dispatched ''b'')
          (run (fifoPrefix @ AddJob ''b'' stillData 3 # fifoRest) (newJobQueue {})) = Some True"
    by code_simp
  then have d2: "dispatched ''b'' s2" using r1 r2 by (simp add: run_append)
  from fifo_dispatch [OF r1 a1 r2 d2]
  have na: "''a'' \<notin> job_id ` set (queue s2)" by (rule conjunct1)
  show ?thesis
    by (rule exI [of _ s1], rule exI [of _ s2]) (intro conjI r1 q1 r2 d2 na)
qed

end
